theory Spec2Isabelle
  imports Main "HOL-Library.Sublist"
begin

section \<open>Text and character classes\<close>

text \<open>
  A Python \<open>str\<close> is a sequence of code points. The model takes \<^typ>\<open>string\<close>, a list of
  \<^typ>\<open>char\<close>: one list element per code point, for the code points below 256. The
  character classes of the \<open>re\<close> module are written out for that range: \<open>\s\<close> and \<open>\w\<close>
  follow the Unicode tables that Python 3 uses for \<open>str\<close> patterns.
\<close>

definition in_range :: "nat \<Rightarrow> nat \<Rightarrow> char \<Rightarrow> bool" where
  "in_range lo hi c = (lo \<le> of_char c \<and> (of_char c :: nat) \<le> hi)"

text \<open>\<open>[a-zA-Z]\<close>\<close>
definition cls_letter :: "char \<Rightarrow> bool" where
  "cls_letter c = (in_range 0x61 0x7A c \<or> in_range 0x41 0x5A c)"

text \<open>\<open>[0-9]\<close>\<close>
definition cls_digit :: "char \<Rightarrow> bool" where
  "cls_digit c = in_range 0x30 0x39 c"

text \<open>\<open>[$-_@.&+]\<close>: the range from \<open>$\<close> (0x24) to \<open>_\<close> (0x5F), and four single characters.\<close>
definition cls_punct :: "char \<Rightarrow> bool" where
  "cls_punct c = (in_range 0x24 0x5F c \<or> c = CHR ''@'' \<or> c = CHR ''.'' \<or> c = CHR ''&''
     \<or> c = CHR ''+'')"

text \<open>\<open>[!*\\(\\),]\<close> in a raw string: \<open>!\<close>, \<open>*\<close>, backslash, \<open>(\<close>, \<open>)\<close> and \<open>,\<close>.\<close>
definition cls_extra :: "char \<Rightarrow> bool" where
  "cls_extra c = (c = CHR ''!'' \<or> c = CHR ''*'' \<or> c = CHR 0x5C \<or> c = CHR ''('' \<or> c = CHR 0x5C
     \<or> c = CHR '')'' \<or> c = CHR '','')"

text \<open>\<open>[0-9a-fA-F]\<close>\<close>
definition cls_hex :: "char \<Rightarrow> bool" where
  "cls_hex c = (in_range 0x30 0x39 c \<or> in_range 0x61 0x66 c \<or> in_range 0x41 0x46 c)"

text \<open>\<open>\s\<close>: the whitespace code points below 256.\<close>
definition re_space :: "char \<Rightarrow> bool" where
  "re_space c = (in_range 0x09 0x0D c \<or> in_range 0x1C 0x20 c \<or> c = CHR 0x85 \<or> c = CHR 0xA0)"

text \<open>\<open>\w\<close>: the alphanumeric code points below 256, and the underscore.\<close>
definition re_word :: "char \<Rightarrow> bool" where
  "re_word c = (in_range 0x30 0x39 c \<or> in_range 0x41 0x5A c \<or> c = CHR ''_''
     \<or> in_range 0x61 0x7A c \<or> c = CHR 0xAA \<or> in_range 0xB2 0xB3 c \<or> c = CHR 0xB5
     \<or> in_range 0xB9 0xBA c \<or> in_range 0xBC 0xBE c \<or> in_range 0xC0 0xD6 c
     \<or> in_range 0xD8 0xF6 c \<or> in_range 0xF8 0xFF c)"

text \<open>\<open>.\<close> without the DOTALL flag: any character but the line feed.\<close>
definition re_dot :: "char \<Rightarrow> bool" where
  "re_dot c = (c \<noteq> CHR 0x0A)"

text \<open>\<open>["\']\<close>\<close>
definition cls_quote :: "char \<Rightarrow> bool" where
  "cls_quote c = (c = CHR 0x22 \<or> c = CHR 0x27)"

text \<open>\<open>[\w./]\<close>\<close>
definition cls_path :: "char \<Rightarrow> bool" where
  "cls_path c = (re_word c \<or> c = CHR ''.'' \<or> c = CHR ''/'')"

text \<open>\<open>[^\s"\'<>]\<close>\<close>
definition cls_token :: "char \<Rightarrow> bool" where
  "cls_token c = (\<not> (re_space c \<or> c = CHR 0x22 \<or> c = CHR 0x27 \<or> c = CHR ''<'' \<or> c = CHR ''>''))"

text \<open>\<open>[-=]\<close>\<close>
definition cls_dash_eq :: "char \<Rightarrow> bool" where
  "cls_dash_eq c = (c = CHR ''-'' \<or> c = CHR ''='')"

text \<open>\<open>str.startswith\<close>, \<open>str.lstrip(chars)\<close> and \<open>str.rstrip(chars)\<close>.\<close>

definition startswith :: "string \<Rightarrow> string \<Rightarrow> bool" where
  "startswith u p = (take (length p) u = p)"

definition lstrip :: "string \<Rightarrow> string \<Rightarrow> string" where
  "lstrip chars u = dropWhile (\<lambda>c. c \<in> set chars) u"

definition rstrip :: "string \<Rightarrow> string \<Rightarrow> string" where
  "rstrip chars u = rev (dropWhile (\<lambda>c. c \<in> set chars) (rev u))"

text \<open>The slice \<open>s[i:j]\<close> for \<open>i \<le> j\<close>.\<close>
definition slice :: "string \<Rightarrow> nat \<Rightarrow> nat \<Rightarrow> string" where
  "slice s i j = take (j - i) (drop i s)"


section \<open>The regular expressions of \<open>extract_urls\<close>\<close>

text \<open>
  The syntax of the patterns that \<open>extract_urls\<close> compiles: character classes, the anchors
  \<open>^\<close> and \<open>$\<close> (no MULTILINE flag), concatenation, alternation, the greedy \<open>*\<close> and \<open>?\<close>,
  the capturing group (each pattern has at most one) and the two lookaheads.
\<close>

datatype re =
    Eps
  | Atom "char \<Rightarrow> bool"
  | Bos
  | Eos
  | Cat re re
  | Alt re re
  | Star re
  | Opt re
  | Group re
  | Ahead re
  | NotAhead re

text \<open>A matcher state: the position in the text and the span of group 1, if it is set.\<close>
type_synonym mstate = "nat \<times> (nat \<times> nat) option"

text \<open>
  The backtracking matcher. \<open>rmatch r s st\<close> lists the states in which a match of \<open>r\<close>
  started in state \<open>st\<close> can end, in the order in which backtracking tries them: the first
  alternative before the second, more repetitions before fewer, the optional part taken
  before skipped. \<open>$\<close> holds at the end of the text and before a line feed that ends it.
\<close>

function rmatch :: "re \<Rightarrow> string \<Rightarrow> mstate \<Rightarrow> mstate list" where
  "rmatch Eps s (i, c) = [(i, c)]"
| "rmatch (Atom p) s (i, c) = (if i < length s \<and> p (s ! i) then [(i + 1, c)] else [])"
| "rmatch Bos s (i, c) = (if i = 0 then [(i, c)] else [])"
| "rmatch Eos s (i, c) =
     (if i = length s \<or> (i + 1 = length s \<and> s ! i = CHR 0x0A) then [(i, c)] else [])"
| "rmatch (Cat a b) s (i, c) = concat (map (rmatch b s) (rmatch a s (i, c)))"
| "rmatch (Alt a b) s (i, c) = rmatch a s (i, c) @ rmatch b s (i, c)"
| "rmatch (Star a) s (i, c) =
     concat (map (\<lambda>(j, c'). if i < j \<and> j \<le> length s then rmatch (Star a) s (j, c') else [])
                 (rmatch a s (i, c))) @ [(i, c)]"
| "rmatch (Opt a) s (i, c) = rmatch a s (i, c) @ [(i, c)]"
| "rmatch (Group a) s (i, c) = map (\<lambda>(j, _). (j, Some (i, j))) (rmatch a s (i, c))"
| "rmatch (Ahead a) s (i, c) = (if rmatch a s (i, c) = [] then [] else [(i, c)])"
| "rmatch (NotAhead a) s (i, c) = (if rmatch a s (i, c) = [] then [(i, c)] else [])"
  by pat_completeness auto
termination
  by (relation "inv_image (less_than <*lex*> less_than) (\<lambda>(r, s, (i, c)). (size r, length s - i))")
    auto

text \<open>
  The equation of the repetition unfolds itself; it is used by hand, not by the simplifier.
\<close>
declare rmatch.simps(7) [simp del]

text \<open>Notation for the patterns: a single character, a sequence, a choice, a literal, \<open>+\<close>.\<close>

definition chr :: "char \<Rightarrow> re" where
  "chr c = Atom (\<lambda>x. x = c)"

fun seq :: "re list \<Rightarrow> re" where
  "seq [] = Eps"
| "seq [r] = r"
| "seq (r # rs) = Cat r (seq rs)"

fun alts :: "re list \<Rightarrow> re" where
  "alts [] = NotAhead Eps"
| "alts [r] = r"
| "alts (r # rs) = Alt r (alts rs)"

definition lit :: "string \<Rightarrow> re" where
  "lit w = seq (map chr w)"

definition plus :: "re \<Rightarrow> re" where
  "plus r = Cat r (Star r)"

text \<open>
  \<^verbatim>\<open>http[s]?://(?:[a-zA-Z]|[0-9]|[$-_@.&+]|[!*\\(\\),]|(?:%[0-9a-fA-F][0-9a-fA-F]))+\<close>
\<close>
definition url_pattern :: re where
  "url_pattern = seq [lit ''http'', Opt (chr CHR ''s''), lit ''://'',
     plus (alts [Atom cls_letter, Atom cls_digit, Atom cls_punct, Atom cls_extra,
                 seq [chr CHR ''%'', Atom cls_hex, Atom cls_hex]])]"

text \<open>The left boundary \<^verbatim>\<open>(?:^|\s|["\'])\<close> and the three lookaheads that follow it.\<close>
definition left_boundary :: re where
  "left_boundary = alts [Bos, Atom re_space, Atom cls_quote]"

definition no_double_slash :: re where
  "no_double_slash = NotAhead (seq [Star (Atom re_dot), lit ''//''])"

definition no_double_star :: re where
  "no_double_star = NotAhead (seq [Star (Atom re_dot), chr CHR ''*'', chr CHR ''*''])"

definition no_comment_opener :: re where
  "no_comment_opener = NotAhead (seq [Star (Atom re_dot), chr CHR ''/'', chr CHR ''*'', Atom cls_dash_eq])"

text \<open>The right boundary \<^verbatim>\<open>(?=\s|$|["\'])\<close> and the lookahead \<^verbatim>\<open>(?!.*,)\<close>.\<close>
definition right_boundary :: re where
  "right_boundary = Ahead (alts [Atom re_space, Eos, Atom cls_quote])"

definition no_comma :: re where
  "no_comma = NotAhead (seq [Star (Atom re_dot), chr CHR '','']) "

text \<open>
  \<^verbatim>\<open>(?:^|\s|["\'])(?!.*//)(?!.*\*{2})(?!.*\/\*[-=])(\./[\w./]*|\.\./[\w./]*|/[\w./]*)(?=\s|$|["\'])(?!.*,)\<close>
\<close>
definition partial_url_pattern :: re where
  "partial_url_pattern = seq [left_boundary, no_double_slash, no_double_star, no_comment_opener,
     Group (alts [seq [lit ''./'', Star (Atom cls_path)],
                  seq [lit ''../'', Star (Atom cls_path)],
                  seq [chr CHR ''/'', Star (Atom cls_path)]]),
     right_boundary, no_comma]"

text \<open>
  \<^verbatim>\<open>(?:^|\s|["\'])(?!.*//)(?!.*\*{2})(?!.*\/\*[-=])(/[^\s"\'<>]*)?(?=\s|$|["\'])(?!.*,)\<close>
\<close>
definition forward_slash_pattern :: re where
  "forward_slash_pattern = seq [left_boundary, no_double_slash, no_double_star, no_comment_opener,
     Opt (Group (seq [chr CHR ''/'', Star (Atom cls_token)])),
     right_boundary, no_comma]"


section \<open>Searching: \<open>Pattern.findall\<close>\<close>

text \<open>
  One attempt at position \<open>i\<close>: the first way to match in backtracking order. After an
  empty match the next attempt at the same position must advance: an empty match there is
  refused and backtracking goes on.
\<close>

definition match_at :: "re \<Rightarrow> string \<Rightarrow> nat \<Rightarrow> bool \<Rightarrow> mstate option" where
  "match_at r s i must_advance =
     (case filter (\<lambda>(j, c). \<not> (must_advance \<and> j = i)) (rmatch r s (i, None)) of
        [] \<Rightarrow> None
      | m # _ \<Rightarrow> Some m)"

text \<open>
  The search tries the start position, then every later position up to the end of the text;
  only the first attempt is subject to the must-advance rule.
\<close>

function search :: "re \<Rightarrow> string \<Rightarrow> nat \<Rightarrow> bool \<Rightarrow> (nat \<times> mstate) option" where
  "search r s i must_advance =
     (case match_at r s i must_advance of
        Some m \<Rightarrow> Some (i, m)
      | None \<Rightarrow> if i < length s then search r s (i + 1) False else None)"
  by pat_completeness auto
termination
  by (relation "measure (\<lambda>(r, s, i, m). length s - i)") auto

declare search.simps [simp del]

text \<open>A match never moves to the left and never leaves the text.\<close>

lemma in_rmatch_Star:
  "x \<in> set (rmatch (Star a) s (i, c)) \<longleftrightarrow>
     x = (i, c) \<or> (\<exists>k d. (k, d) \<in> set (rmatch a s (i, c)) \<and> i < k \<and> k \<le> length s
        \<and> x \<in> set (rmatch (Star a) s (k, d)))"
  by (subst rmatch.simps(7)) (auto split: if_splits)

lemma in_rmatch_Cat:
  "x \<in> set (rmatch (Cat a b) s (i, c)) \<longleftrightarrow>
     (\<exists>k d. (k, d) \<in> set (rmatch a s (i, c)) \<and> x \<in> set (rmatch b s (k, d)))"
  by (auto simp del: rmatch.simps simp add: rmatch.simps(5))

lemma rmatch_bounds:
  "(j, c') \<in> set (rmatch r s (i, c)) \<Longrightarrow> i \<le> j \<and> (i \<le> length s \<longrightarrow> j \<le> length s)"
proof (induction r s "(i, c)" arbitrary: i c j c' rule: rmatch.induct)
  case (5 a b s i c)
  from "5.prems" obtain k d where kd: "(k, d) \<in> set (rmatch a s (i, c))"
    and jc: "(j, c') \<in> set (rmatch b s (k, d))"
    unfolding in_rmatch_Cat by blast
  from "5.hyps"(1) [OF kd] "5.hyps"(2) [OF kd jc] show ?case by auto
next
  case (7 a s i c)
  from "7.prems" consider "(j, c') = (i, c)"
    | k d where "(k, d) \<in> set (rmatch a s (i, c))" "i < k" "k \<le> length s"
        "(j, c') \<in> set (rmatch (Star a) s (k, d))"
    by (subst (asm) in_rmatch_Star) blast
  then show ?case
  proof cases
    case 1
    then show ?thesis by simp
  next
    case 2
    from "7.hyps"(2) [OF 2(1) refl conjI [OF 2(2) 2(3)] 2(4)] 2(2,3) show ?thesis by auto
  qed
qed (auto split: if_splits)

lemma match_at_bounds:
  assumes "match_at r s i ma = Some (e, c)"
  shows "i \<le> e \<and> (i \<le> length s \<longrightarrow> e \<le> length s) \<and> (ma \<longrightarrow> i < e)"
proof -
  from assms have "(e, c) \<in> set (filter (\<lambda>(j, c). \<not> (ma \<and> j = i)) (rmatch r s (i, None)))"
    unfolding match_at_def by (auto split: list.splits simp del: filter.simps set_filter)
  then have m: "(e, c) \<in> set (rmatch r s (i, None))" and a: "\<not> (ma \<and> e = i)"
    by auto
  from rmatch_bounds [OF m] a show ?thesis by auto
qed

lemma search_bounds:
  "search r s i ma = Some (b, e, c) \<Longrightarrow>
     i \<le> b \<and> b \<le> e \<and> (i \<le> length s \<longrightarrow> e \<le> length s) \<and> (ma \<and> b = i \<longrightarrow> i < e)"
proof (induction r s i ma rule: search.induct)
  case (1 r s i ma)
  show ?case
  proof (cases "match_at r s i ma")
    case None
    with "1.prems" have lt: "i < length s" and rec: "search r s (i + 1) False = Some (b, e, c)"
      by (auto simp add: search.simps [of r s i] split: if_splits)
    from "1.IH" [OF None lt rec] lt show ?thesis by auto
  next
    case (Some m)
    with "1.prems" have "match_at r s i ma = Some (e, c)" and "b = i"
      by (auto simp add: search.simps [of r s i])
    with match_at_bounds [of r s i ma e c] show ?thesis by auto
  qed
qed

text \<open>
  The loop of \<open>findall\<close>: search from the current position; a match is recorded with its
  start, its end and its group, and the next search starts at its end, under the
  must-advance rule when the match was empty. The loop ends when a search finds nothing.
\<close>

function scan :: "re \<Rightarrow> string \<Rightarrow> nat \<Rightarrow> bool \<Rightarrow> (nat \<times> nat \<times> (nat \<times> nat) option) list" where
  "scan r s start must_advance =
     (if start \<le> length s then
        (case search r s start must_advance of
           None \<Rightarrow> []
         | Some (b, e, c) \<Rightarrow> (b, e, c) # scan r s e (e = b))
      else [])"
  by pat_completeness auto
termination
proof (relation "measure (\<lambda>(r, s, start, ma). 2 * (length s + 1 - start) + (if ma then 0 else 1))",
    goal_cases)
  case 1
  show ?case by simp
next
  case (2 r s start ma x2 b y e c)
  then have "search r s start ma = Some (b, e, c)" by simp
  from search_bounds [OF this] 2(1)
  have "start \<le> b" "b \<le> e" "e \<le> length s" "ma \<and> b = start \<longrightarrow> start < e" by simp_all
  then have "2 * (length s + 1 - e) + (if e = b then 0 else 1)
      < 2 * (length s + 1 - start) + (if ma then 0 else 1)"
    by (cases ma; cases "e = b"; simp; arith)
  then show ?case by simp
qed

declare scan.simps [simp del]

text \<open>The number of capturing groups of a pattern.\<close>
fun groups :: "re \<Rightarrow> nat" where
  "groups (Cat a b) = groups a + groups b"
| "groups (Alt a b) = groups a + groups b"
| "groups (Star a) = groups a"
| "groups (Opt a) = groups a"
| "groups (Group a) = 1 + groups a"
| "groups (Ahead a) = groups a"
| "groups (NotAhead a) = groups a"
| "groups _ = 0"

text \<open>
  \<open>findall\<close> returns the matched text when the pattern has no group, and the text of the
  group when it has one: the empty string when the group took no part in the match.
\<close>
definition findall :: "re \<Rightarrow> string \<Rightarrow> string list" where
  "findall r s = map (\<lambda>(b, e, c).
       if groups r = 0 then slice s b e
       else (case c of None \<Rightarrow> [] | Some (x, y) \<Rightarrow> slice s x y))
     (scan r s 0 False)"


section \<open>Matches and their normalization\<close>

datatype category = FULL_URL | PARTIAL_URL | FORWARD_SLASH

text \<open>The tuple \<open>(url, flag, repo, file_path, i + 1)\<close> that \<open>extract_urls\<close> builds.\<close>
type_synonym match = "string \<times> category \<times> string \<times> string \<times> nat"

text \<open>
  The \<open>while\<close> loop of \<open>clean_urls\<close>: as long as the string starts with \<open>./\<close> or \<open>../\<close>, both
  \<open>lstrip\<close> calls are applied. \<open>lstrip\<close> takes its argument as a set of characters.
\<close>

function strip_loop :: "string \<Rightarrow> string" where
  "strip_loop u =
     (if startswith u ''./'' \<or> startswith u ''../''
      then strip_loop (lstrip ''../'' (lstrip ''./'' u))
      else u)"
  by pat_completeness auto
termination
proof (relation "measure length", goal_cases)
  case 1
  show ?case by simp
next
  case (2 u)
  then obtain v where u: "u = CHR ''.'' # v"
    by (cases u) (auto simp add: startswith_def)
  have "length (lstrip ''../'' (lstrip ''./'' u)) \<le> length (lstrip ''./'' u)"
    unfolding lstrip_def by (rule length_dropWhile_le)
  also have "\<dots> = length (dropWhile (\<lambda>c. c \<in> set ''./'') v)"
    unfolding lstrip_def u by simp
  also have "\<dots> \<le> length v"
    by (rule length_dropWhile_le)
  finally show ?case by (simp add: u)
qed

declare strip_loop.simps [simp del]

text \<open>The body of the \<open>for\<close> loop of \<open>clean_urls\<close> on the string of one tuple.\<close>
definition clean_url :: "string \<Rightarrow> string" where
  "clean_url u = (let v = strip_loop u in if \<not> startswith v ''/'' then ''/'' @ v else v)"

definition clean_urls :: "match list \<Rightarrow> match list" where
  "clean_urls urls_to_clean = map (\<lambda>(u, rest). (clean_url u, rest)) urls_to_clean"

text \<open>The three list comprehensions of \<open>extract_urls\<close> share this shape.\<close>
definition tagged :: "re \<Rightarrow> category \<Rightarrow> string \<Rightarrow> string \<Rightarrow> string \<Rightarrow> match list" where
  "tagged pat flag text repo file_path =
     map (\<lambda>(i, url). (rstrip '','' url, flag, repo, file_path, i + 1))
         (enumerate 0 (findall pat text))"

definition extract_urls :: "string \<Rightarrow> string \<Rightarrow> string \<Rightarrow> match list" where
  "extract_urls text repo file_path =
     tagged url_pattern FULL_URL text repo file_path
     @ clean_urls (tagged partial_url_pattern PARTIAL_URL text repo file_path)
     @ clean_urls (tagged forward_slash_pattern FORWARD_SLASH text repo file_path)"


section \<open>Scanning a directory\<close>

text \<open>
  A file as the walk of the directory meets it: its path, whether \<open>is_text_file\<close> accepts
  it, and what \<open>read_file\<close> returns for it (\<open>None\<close> when reading fails).
\<close>
record file_entry =
  path :: string
  text_probe :: bool
  contents :: "string option"

text \<open>\<open>os.path.dirname\<close> and \<open>os.path.basename\<close> of \<open>posixpath\<close>.\<close>

definition basename :: "string \<Rightarrow> string" where
  "basename p = rev (takeWhile (\<lambda>c. c \<noteq> CHR ''/'') (rev p))"

definition dirname :: "string \<Rightarrow> string" where
  "dirname p =
     (let head = rev (dropWhile (\<lambda>c. c \<noteq> CHR ''/'') (rev p)) in
      if head \<noteq> [] \<and> head \<noteq> replicate (length head) CHR ''/'' then rstrip ''/'' head else head)"

text \<open>
  The ResultSet: a dictionary from the three categories to sets of strings. A set is kept
  as a list without repetitions and \<open>set_add\<close> is \<open>set.add\<close>. The order of the list is not
  the order in which Python iterates over the set: that order is left open, see
  \<open>set_orders\<close> below.
\<close>
type_synonym result_set = "category \<Rightarrow> string list"

definition set_add :: "string \<Rightarrow> string list \<Rightarrow> string list" where
  "set_add x xs = (if x \<in> set xs then xs else xs @ [x])"

definition empty_results :: result_set where
  "empty_results = (\<lambda>flag. [])"

text \<open>\<open>any(char in url for char in forbidden_characters)\<close>\<close>
definition is_forbidden :: "char list \<Rightarrow> string \<Rightarrow> bool" where
  "is_forbidden forbidden_characters url = list_ex (\<lambda>char. char \<in> set url) forbidden_characters"

text \<open>The inner loop of \<open>search_directory_for_urls\<close> over the matches of one file.\<close>
fun add_urls :: "char list \<Rightarrow> match list \<Rightarrow> result_set \<Rightarrow> result_set" where
  "add_urls forbidden_characters [] all_urls = all_urls"
| "add_urls forbidden_characters ((url, flag, _) # urls) all_urls =
     (if is_forbidden forbidden_characters url
      then add_urls forbidden_characters urls all_urls
      else add_urls forbidden_characters urls (all_urls(flag := set_add url (all_urls flag))))"

text \<open>The outer loop over the files of the walk.\<close>
fun scan_files :: "char list \<Rightarrow> file_entry list \<Rightarrow> result_set \<Rightarrow> result_set" where
  "scan_files forbidden_characters [] all_urls = all_urls"
| "scan_files forbidden_characters (f # files) all_urls =
     (if \<not> text_probe f then scan_files forbidden_characters files all_urls
      else (case contents f of
              None \<Rightarrow> scan_files forbidden_characters files all_urls
            | Some content \<Rightarrow>
                scan_files forbidden_characters files
                  (add_urls forbidden_characters
                     (extract_urls content (basename (dirname (path f))) (path f)) all_urls)))"

definition search_directory_for_urls :: "file_entry list \<Rightarrow> char list \<Rightarrow> result_set" where
  "search_directory_for_urls directory forbidden_characters =
     scan_files forbidden_characters directory empty_results"


section \<open>The two modes and their reports\<close>

text \<open>The list \<open>forbidden_characters\<close> of \<open>process_repo\<close>.\<close>
definition repo_forbidden_characters :: "char list" where
  "repo_forbidden_characters =
     [CHR '' '', CHR 0x22, CHR ''<'', CHR ''>'', CHR 0x5C, CHR ''^'', CHR 0x60, CHR ''{'', CHR ''}'',
      CHR ''['', CHR '']'', CHR ''|'', CHR 0x7F, CHR '')'', CHR ''('', CHR ''@'']"

text \<open>The list \<open>forbidden_characters\<close> of \<open>process_dir\<close>.\<close>
definition dir_forbidden_characters :: "char list" where
  "dir_forbidden_characters =
     [CHR '' '', CHR 0x22, CHR ''<'', CHR ''>'', CHR 0x5C, CHR ''^'', CHR 0x60, CHR ''{'', CHR ''}'',
      CHR ''['', CHR '']'', CHR ''|'', CHR 0x7F, CHR '')'', CHR ''('']"

text \<open>The keys of the dictionary in the order of \<open>items()\<close>, and their names in an f-string.\<close>
definition flags :: "category list" where
  "flags = [FULL_URL, PARTIAL_URL, FORWARD_SLASH]"

fun flag_name :: "category \<Rightarrow> string" where
  "flag_name FULL_URL = ''FULL_URL''"
| "flag_name PARTIAL_URL = ''PARTIAL_URL''"
| "flag_name FORWARD_SLASH = ''FORWARD_SLASH''"

definition newline :: string where
  "newline = [CHR 0x0A]"

text \<open>\<^verbatim>\<open>f.write(f"{flag}: {url}\n")\<close>\<close>
definition url_line :: "category \<Rightarrow> string \<Rightarrow> string" where
  "url_line flag url = flag_name flag @ '': '' @ url @ newline"

text \<open>The \<open>if\<close>/\<open>elif\<close> chain of \<open>process_repo\<close> that writes a header for each flag.\<close>
definition repo_header :: "category \<Rightarrow> string" where
  "repo_header flag =
     (if flag = FULL_URL then ''FULL_URLS:'' @ newline
      else if flag = PARTIAL_URL then newline @ ''PARTIAL_URLS:'' @ newline
      else if flag = FORWARD_SLASH then newline @ ''FORWARD_SLASHES:'' @ newline
      else [])"

text \<open>Opening the output file in mode \<open>a\<close> or \<open>w\<close> and writing \<open>new\<close> to it.\<close>
definition write_file :: "bool \<Rightarrow> string \<Rightarrow> string \<Rightarrow> string" where
  "write_file append_flag old new = (if append_flag then old @ new else new)"

text \<open>
  Iterating over a Python set yields each of its elements once, in an order that depends on
  the hashes of the strings and is not fixed by the program. \<open>set_orders xs\<close> are the
  sequences that an iteration over the set kept as \<open>xs\<close> can yield.
\<close>
definition set_orders :: "string list \<Rightarrow> string list set" where
  "set_orders xs = {ys. distinct ys \<and> set ys = set xs}"

text \<open>
  \<open>process_repo\<close>, given the files of the cloned directory and the output file as it was.
  The result is the set of the contents that the output file can have afterwards: one for
  every choice of the orders in which the three sets are iterated.
\<close>
definition process_repo :: "file_entry list \<Rightarrow> string \<Rightarrow> bool \<Rightarrow> string set" where
  "process_repo cloned output_file append_flag =
     (let urls = search_directory_for_urls cloned repo_forbidden_characters in
      {write_file append_flag output_file
         (concat (map (\<lambda>flag. repo_header flag @ concat (map (url_line flag) (order flag))) flags))
       | order. \<forall>flag. order flag \<in> set_orders (urls flag)})"

definition process_dir :: "file_entry list \<Rightarrow> string \<Rightarrow> bool \<Rightarrow> string set" where
  "process_dir dir_files output_file append_flag =
     (let urls = search_directory_for_urls dir_files dir_forbidden_characters in
      {write_file append_flag output_file
         (concat (map (\<lambda>flag. concat (map (url_line flag) (order flag))) flags))
       | order. \<forall>flag. order flag \<in> set_orders (urls flag)})"


section \<open>Properties of the normalization\<close>

lemma strip_loop_skip:
  "\<not> startswith u ''./'' \<Longrightarrow> \<not> startswith u ''../'' \<Longrightarrow> strip_loop u = u"
  by (subst strip_loop.simps) simp

lemma startswith_Cons [simp]:
  "startswith u (x # p) \<longleftrightarrow> (\<exists>v. u = x # v \<and> startswith v p)"
  by (cases u) (auto simp add: startswith_def)

lemma startswith_Nil [simp]: "startswith u []"
  by (simp add: startswith_def)

lemma lstrip_twice:
  "lstrip ''../'' (lstrip ''./'' u) = dropWhile (\<lambda>c. c = CHR ''.'' \<or> c = CHR ''/'') u"
proof -
  have "dropWhile (\<lambda>c. c = CHR ''.'' \<or> c = CHR ''/'') (dropWhile (\<lambda>c. c = CHR ''.'' \<or> c = CHR ''/'') u)
      = dropWhile (\<lambda>c. c = CHR ''.'' \<or> c = CHR ''/'') u"
    by (rule dropWhile_idem)
  then show ?thesis by (simp add: lstrip_def)
qed

lemma dropWhile_not_head:
  "dropWhile P u = x # v \<Longrightarrow> \<not> P x"
  by (metis hd_dropWhile list.distinct(1) list.sel(1))

lemma stripped_no_prefix:
  "\<not> startswith (dropWhile (\<lambda>c. c = CHR ''.'' \<or> c = CHR ''/'') u) [CHR ''.'']"
  "\<not> startswith (dropWhile (\<lambda>c. c = CHR ''.'' \<or> c = CHR ''/'') u) [CHR ''/'']"
  by (auto dest: dropWhile_not_head)

lemma strip_loop_once:
  assumes "startswith u ''./'' \<or> startswith u ''../''"
  shows "strip_loop u = dropWhile (\<lambda>c. c = CHR ''.'' \<or> c = CHR ''/'') u"
proof -
  let ?v = "dropWhile (\<lambda>c. c = CHR ''.'' \<or> c = CHR ''/'') u"
  have "strip_loop u = strip_loop ?v"
    using assms by (subst strip_loop.simps) (simp only: lstrip_twice if_True)
  also have "\<dots> = ?v"
    using stripped_no_prefix(1) [of u] by (intro strip_loop_skip) auto
  finally show ?thesis .
qed

lemma clean_url_relative:
  assumes "startswith u ''./'' \<or> startswith u ''../''"
  shows "clean_url u = CHR ''/'' # dropWhile (\<lambda>c. c = CHR ''.'' \<or> c = CHR ''/'') u"
  using stripped_no_prefix(2) [of u] by (simp add: clean_url_def strip_loop_once [OF assms])

lemma clean_url_other:
  assumes "\<not> startswith u ''./''" "\<not> startswith u ''../''"
  shows "clean_url u = (if startswith u ''/'' then u else CHR ''/'' # u)"
  by (simp add: clean_url_def strip_loop_skip [OF assms])

lemma clean_url_slash:
  "clean_url (CHR ''/'' # w) = CHR ''/'' # w"
  by (subst clean_url_other) auto

lemma clean_url_shape:
  "\<exists>w. clean_url u = CHR ''/'' # w \<and> (startswith w ''/'' \<longleftrightarrow> startswith u ''//'')"
proof (cases "startswith u ''./'' \<or> startswith u ''../''")
  case True
  then show ?thesis
    using stripped_no_prefix(2) [of u] by (auto simp add: clean_url_relative)
next
  case False
  then show ?thesis
    by (subst clean_url_other) auto
qed


section \<open>The claims about the normalization and the configurations\<close>

text \<open>
  Claim C4, as amended. When the string starts with \<open>./\<close> or \<open>../\<close>, the normalization removes
  every leading \<open>.\<close> and \<open>/\<close> character, not whole \<open>./\<close> or \<open>../\<close> segments, and prepends one
  \<open>/\<close>: \<open>.././/x\<close> becomes \<open>/x\<close>. A string that starts with neither prefix is not stripped at
  all: \<open>....//x\<close> becomes \<open>/....//x\<close>.
\<close>

theorem C4_strips_characters_behind_guard:
  "(startswith u ''./'' \<or> startswith u ''../'' \<longrightarrow>
      clean_url u = ''/'' @ dropWhile (\<lambda>c. c = CHR ''.'' \<or> c = CHR ''/'') u)
   \<and> (\<not> startswith u ''./'' \<and> \<not> startswith u ''../'' \<longrightarrow>
      clean_url u = (if startswith u ''/'' then u else ''/'' @ u))
   \<and> clean_url ''.././/x'' = ''/x''
   \<and> clean_url ''....//x'' = ''/....//x''"
proof -
  have "clean_url ''.././/x'' = ''/x''"
    by (subst clean_url_relative) simp_all
  moreover have "clean_url ''....//x'' = ''/....//x''"
    by (subst clean_url_other) simp_all
  ultimately show ?thesis
    by (simp add: clean_url_relative clean_url_other)
qed

theorem C4_witness:
  "clean_url ''./../a'' = ''/a'' \<and> clean_url ''a/./b'' = ''/a/./b''"
  using C4_strips_characters_behind_guard [of "''./../a''"]
    C4_strips_characters_behind_guard [of "''a/./b''"]
  by simp

text \<open>
  Claim C4 as stated fails: the loop is guarded by the two prefixes, \<open>....//x\<close> has neither,
  and the result is not \<open>/x\<close>.
\<close>

theorem C4_counterexample: "clean_url ''....//x'' \<noteq> ''/x''"
  by (subst clean_url_other) simp_all

text \<open>
  Claim C8. A string that starts with a single \<open>/\<close> and has no leading dot is returned
  unchanged by the normalization; in particular the normalization is idempotent.
\<close>

theorem C8_normalized_unchanged:
  "(startswith u ''/'' \<and> \<not> startswith u ''//'' \<and> \<not> startswith u ''.'' \<longrightarrow> clean_url u = u)
   \<and> clean_url (clean_url v) = clean_url v"
proof -
  obtain w where "clean_url v = CHR ''/'' # w"
    using clean_url_shape [of v] by blast
  then have "clean_url (clean_url v) = clean_url v"
    by (simp add: clean_url_slash)
  moreover have "startswith u ''/'' \<longrightarrow> clean_url u = u"
    by (auto simp add: clean_url_slash)
  ultimately show ?thesis by blast
qed

theorem C8_witness:
  "clean_url ''/etc/passwd'' = ''/etc/passwd''
   \<and> clean_url (clean_url ''../x'') = clean_url ''../x''"
  using C8_normalized_unchanged [of "''/etc/passwd''" "''../x''"] by simp

text \<open>
  Claim C10. For a string that starts with \<open>./\<close> or \<open>../\<close>, one pass of the loop body removes
  all leading characters among \<open>.\<close> and \<open>/\<close>, after which the loop ends; so \<open>./.config/x\<close> is
  normalized to \<open>/config/x\<close>.
\<close>

theorem C10_one_pass_strips_dots_and_slashes:
  "(startswith u ''./'' \<or> startswith u ''../'' \<longrightarrow>
      (let v = lstrip ''../'' (lstrip ''./'' u) in
         v = dropWhile (\<lambda>c. c = CHR ''.'' \<or> c = CHR ''/'') u
         \<and> \<not> startswith v ''./'' \<and> \<not> startswith v ''../''
         \<and> strip_loop u = v \<and> clean_url u = ''/'' @ v))
   \<and> clean_url ''./.config/x'' = ''/config/x''"
proof -
  have "clean_url ''./.config/x'' = ''/config/x''"
    by (subst clean_url_relative) simp_all
  moreover have "\<not> startswith (dropWhile (\<lambda>c. c = CHR ''.'' \<or> c = CHR ''/'') u) ''./''"
    "\<not> startswith (dropWhile (\<lambda>c. c = CHR ''.'' \<or> c = CHR ''/'') u) ''../''"
    using stripped_no_prefix(1) [of u] by auto
  ultimately show ?thesis
    by (simp add: lstrip_twice strip_loop_once clean_url_relative)
qed

theorem C10_witness:
  "strip_loop ''../.git/./x'' = ''git/./x'' \<and> clean_url ''../.git/./x'' = ''/git/./x''"
  using C10_one_pass_strips_dots_and_slashes [of "''../.git/./x''"]
  by (simp add: Let_def)

text \<open>
  Claim C6. The forbidden characters of the repository mode are the base set and \<open>@\<close>;
  those of the directory mode are the base set, without \<open>@\<close>; the two lists differ in \<open>@\<close>
  only.
\<close>

theorem C6_forbidden_sets:
  "set repo_forbidden_characters =
     {CHR '' '', CHR 0x22, CHR ''<'', CHR ''>'', CHR 0x5C, CHR ''^'', CHR 0x60, CHR ''{'', CHR ''}'',
      CHR ''['', CHR '']'', CHR ''|'', CHR 0x7F, CHR ''('', CHR '')''} \<union> {CHR ''@''}
   \<and> set dir_forbidden_characters =
     {CHR '' '', CHR 0x22, CHR ''<'', CHR ''>'', CHR 0x5C, CHR ''^'', CHR 0x60, CHR ''{'', CHR ''}'',
      CHR ''['', CHR '']'', CHR ''|'', CHR 0x7F, CHR ''('', CHR '')''}
   \<and> CHR ''@'' \<notin> set dir_forbidden_characters
   \<and> repo_forbidden_characters = dir_forbidden_characters @ [CHR ''@'']"
  by (auto simp add: repo_forbidden_characters_def dir_forbidden_characters_def)


section \<open>The claims about the result set\<close>

lemma set_set_add [simp]: "set (set_add x xs) = insert x (set xs)"
  by (auto simp add: set_add_def)

lemma distinct_set_add [simp]: "distinct (set_add x xs) = distinct xs"
  by (auto simp add: set_add_def)

lemma add_urls_distinct:
  "(\<And>flag. distinct (acc flag)) \<Longrightarrow> distinct (add_urls fc ms acc flag)"
  by (induction fc ms acc rule: add_urls.induct) auto

lemma add_urls_set:
  "set (add_urls fc ms acc flag) =
     set (acc flag) \<union> fst ` {m \<in> set ms. fst (snd m) = flag \<and> \<not> is_forbidden fc (fst m)}"
proof (induction ms arbitrary: acc)
  case Nil
  show ?case by simp
next
  case (Cons m ms)
  obtain url fl rest where m: "m = (url, fl, rest)"
    by (cases m) auto
  show ?case
  proof (cases "is_forbidden fc url")
    case True
    then have "add_urls fc (m # ms) acc = add_urls fc ms acc"
      by (simp add: m)
    moreover from True have "{x \<in> set (m # ms). fst (snd x) = flag \<and> \<not> is_forbidden fc (fst x)}
        = {x \<in> set ms. fst (snd x) = flag \<and> \<not> is_forbidden fc (fst x)}"
      by (auto simp add: m)
    ultimately show ?thesis
      using Cons.IH [of acc] by simp
  next
    case False
    then have step: "add_urls fc (m # ms) acc = add_urls fc ms (acc(fl := set_add url (acc fl)))"
      by (simp add: m)
    show ?thesis
    proof (cases "fl = flag")
      case True
      with False have "{x \<in> set (m # ms). fst (snd x) = flag \<and> \<not> is_forbidden fc (fst x)}
          = insert m {x \<in> set ms. fst (snd x) = flag \<and> \<not> is_forbidden fc (fst x)}"
        by (auto simp add: m)
      with True show ?thesis
        unfolding step Cons.IH [of "acc(fl := set_add url (acc fl))"]
        by (simp add: m)
    next
      case neq: False
      then have "{x \<in> set (m # ms). fst (snd x) = flag \<and> \<not> is_forbidden fc (fst x)}
          = {x \<in> set ms. fst (snd x) = flag \<and> \<not> is_forbidden fc (fst x)}"
        by (auto simp add: m)
      with neq show ?thesis
        unfolding step Cons.IH [of "acc(fl := set_add url (acc fl))"]
        by simp
    qed
  qed
qed

lemma add_urls_absorb:
  "(\<And>m. m \<in> set ms \<Longrightarrow> \<not> is_forbidden fc (fst m) \<Longrightarrow> fst m \<in> set (acc (fst (snd m))))
     \<Longrightarrow> add_urls fc ms acc = acc"
proof (induction ms)
  case Nil
  show ?case by simp
next
  case (Cons m ms)
  obtain url fl rest where m: "m = (url, fl, rest)"
    by (cases m) auto
  have rec: "add_urls fc ms acc = acc"
    by (rule Cons.IH) (simp add: Cons.prems)
  show ?case
  proof (cases "is_forbidden fc url")
    case True
    with rec show ?thesis by (simp add: m)
  next
    case False
    with Cons.prems [of m] have "url \<in> set (acc fl)"
      by (simp add: m)
    then have "acc(fl := set_add url (acc fl)) = acc"
      by (auto simp add: set_add_def)
    with False rec show ?thesis by (simp add: m)
  qed
qed

lemma add_urls_twice:
  "add_urls fc ms (add_urls fc ms acc) = add_urls fc ms acc"
proof (rule add_urls_absorb)
  fix m
  assume "m \<in> set ms" and "\<not> is_forbidden fc (fst m)"
  then have "m \<in> {x \<in> set ms. fst (snd x) = fst (snd m) \<and> \<not> is_forbidden fc (fst x)}"
    by simp
  then show "fst m \<in> set (add_urls fc ms acc (fst (snd m)))"
    unfolding add_urls_set by blast
qed

lemma scan_files_append:
  "scan_files fc (xs @ ys) acc = scan_files fc ys (scan_files fc xs acc)"
  by (induction fc xs acc rule: scan_files.induct) (auto split: option.splits)

lemma scan_files_twice:
  "scan_files fc (f # f # files) acc = scan_files fc (f # files) acc"
  by (auto split: option.splits simp add: add_urls_twice)

lemma scan_files_distinct:
  "(\<And>flag. distinct (acc flag)) \<Longrightarrow> distinct (scan_files fc files acc flag)"
  by (induction fc files acc rule: scan_files.induct) (auto split: option.splits simp add: add_urls_distinct)

lemma scan_files_set:
  "u \<in> set (scan_files fc files acc flag) \<Longrightarrow> u \<in> set (acc flag) \<or> \<not> is_forbidden fc u"
  by (induction fc files acc rule: scan_files.induct)
    (auto split: option.splits if_splits simp add: add_urls_set)

lemma is_forbidden_iff: "is_forbidden fc u \<longleftrightarrow> (\<exists>c \<in> set fc. c \<in> set u)"
  by (simp add: is_forbidden_def list_ex_iff)

text \<open>
  Claim C1. In the ResultSet of every scan no string occurs twice in the set of a category,
  and no string with a forbidden character is in any set; merging the matches of the same
  content a second time changes nothing, and so does scanning the same file twice.
\<close>

theorem C1_result_set_unique_and_filtered:
  "distinct (search_directory_for_urls files fc flag)
   \<and> (\<forall>u \<in> set (search_directory_for_urls files fc flag). \<forall>c \<in> set fc. c \<notin> set u)
   \<and> add_urls fc (extract_urls content repo fp) (add_urls fc (extract_urls content repo fp) acc)
       = add_urls fc (extract_urls content repo fp) acc
   \<and> search_directory_for_urls (before @ f # f # after) fc
       = search_directory_for_urls (before @ f # after) fc"
proof -
  have "distinct (search_directory_for_urls files fc flag)"
    unfolding search_directory_for_urls_def
    by (rule scan_files_distinct) (simp add: empty_results_def)
  moreover have "\<forall>u \<in> set (search_directory_for_urls files fc flag). \<forall>c \<in> set fc. c \<notin> set u"
    using scan_files_set [of _ fc files empty_results flag]
    unfolding search_directory_for_urls_def
    by (auto simp add: empty_results_def is_forbidden_iff)
  moreover have "search_directory_for_urls (before @ f # f # after) fc
       = search_directory_for_urls (before @ f # after) fc"
    unfolding search_directory_for_urls_def scan_files_append
    by (rule scan_files_twice)
  ultimately show ?thesis
    by (simp add: add_urls_twice)
qed

theorem C1_witness:
  "search_directory_for_urls [\<lparr>path = ''d/f.txt'', text_probe = True, contents = Some ''/a(b /c /c''\<rparr>] dir_forbidden_characters FORWARD_SLASH = [''/c'']
   \<and> distinct (search_directory_for_urls [\<lparr>path = ''d/f.txt'', text_probe = True, contents = Some ''/a(b /c /c''\<rparr>] dir_forbidden_characters FORWARD_SLASH)
   \<and> ''/a(b'' \<notin> set (search_directory_for_urls [\<lparr>path = ''d/f.txt'', text_probe = True, contents = Some ''/a(b /c /c''\<rparr>] dir_forbidden_characters FORWARD_SLASH)
   \<and> search_directory_for_urls [\<lparr>path = ''d/f.txt'', text_probe = True, contents = Some ''/a(b /c /c''\<rparr>,
        \<lparr>path = ''d/f.txt'', text_probe = True, contents = Some ''/a(b /c /c''\<rparr>] dir_forbidden_characters
       = search_directory_for_urls [\<lparr>path = ''d/f.txt'', text_probe = True, contents = Some ''/a(b /c /c''\<rparr>] dir_forbidden_characters"
proof -
  have e: "search_directory_for_urls [\<lparr>path = ''d/f.txt'', text_probe = True, contents = Some ''/a(b /c /c''\<rparr>] dir_forbidden_characters FORWARD_SLASH = [''/c'']"
    by code_simp
  from C1_result_set_unique_and_filtered
    [of "[\<lparr>path = ''d/f.txt'', text_probe = True, contents = Some ''/a(b /c /c''\<rparr>]" dir_forbidden_characters FORWARD_SLASH _ _ _ _ "[]" "\<lparr>path = ''d/f.txt'', text_probe = True, contents = Some ''/a(b /c /c''\<rparr>" "[]"] e
  show ?thesis by simp
qed

text \<open>
  Claim C9. The text \<open>a  b\<close> has no \<open>/\<close>. The FORWARD_SLASH pattern matches the first blank
  with its group skipped, \<open>findall\<close> returns the empty string for it, the normalization
  turns that into \<open>/\<close>, and \<open>/\<close> is inserted into the FORWARD_SLASH set in both modes.
\<close>

theorem C9_empty_match_becomes_slash:
  "CHR ''/'' \<notin> set ''a  b''
   \<and> findall forward_slash_pattern ''a  b'' = [[]]
   \<and> extract_urls ''a  b'' ''d'' ''d/f.txt'' = [(''/'', FORWARD_SLASH, ''d'', ''d/f.txt'', 1)]
   \<and> search_directory_for_urls
        [\<lparr>path = ''d/f.txt'', text_probe = True, contents = Some ''a  b''\<rparr>]
        dir_forbidden_characters FORWARD_SLASH = [''/'']
   \<and> search_directory_for_urls
        [\<lparr>path = ''d/f.txt'', text_probe = True, contents = Some ''a  b''\<rparr>]
        repo_forbidden_characters FORWARD_SLASH = [''/'']"
  by code_simp


section \<open>The claim about the report\<close>

lemma set_orders_iff: "ys \<in> set_orders xs \<longleftrightarrow> distinct ys \<and> set ys = set xs"
  by (simp add: set_orders_def)

lemma orders_Nil: "distinct ys \<and> set ys = set [] \<longleftrightarrow> ys = []"
  by auto

lemma orders_single: "distinct ys \<and> set ys = set [x] \<longleftrightarrow> ys = [x]"
proof
  assume ys: "distinct ys \<and> set ys = set [x]"
  then have "card (set ys) = length ys"
    using distinct_card [of ys] by blast
  moreover from ys have "card (set ys) = 1"
    by simp
  ultimately have "length ys = 1" by simp
  then obtain a where "ys = [a]"
    by (auto simp add: length_Suc_conv)
  with ys show "ys = [x]" by simp
next
  assume "ys = [x]"
  then show "distinct ys \<and> set ys = set [x]" by simp
qed

lemma orders_two:
  assumes "x \<noteq> y"
  shows "distinct ys \<and> set ys = set [x, y] \<longleftrightarrow> ys = [x, y] \<or> ys = [y, x]"
proof
  assume ys: "distinct ys \<and> set ys = set [x, y]"
  then have "card (set ys) = length ys"
    using distinct_card [of ys] by blast
  moreover from ys assms have "card (set ys) = 2"
    by simp
  ultimately have "length ys = 2" by simp
  then obtain a b where ab: "ys = [a, b]"
    by (auto simp add: length_Suc_conv numeral_2_eq_2)
  from ys have "{a, b} = {x, y}" unfolding ab by simp
  then show "ys = [x, y] \<or> ys = [y, x]"
    unfolding ab by (auto simp add: doubleton_eq_iff)
next
  assume "ys = [x, y] \<or> ys = [y, x]"
  with assms show "distinct ys \<and> set ys = set [x, y]" by auto
qed

lemma set_orders_Nil: "set_orders [] = {[]}"
  unfolding set_orders_def orders_Nil by simp

lemma set_orders_single: "set_orders [x] = {[x]}"
  unfolding set_orders_def orders_single by simp

lemma set_orders_two: "x \<noteq> y \<Longrightarrow> set_orders [x, y] = {[x, y], [y, x]}"
  unfolding set_orders_def orders_two by auto

lemma three_orders:
  "(\<exists>fs ps ss. distinct fs \<and> set fs = set xs \<and> distinct ps \<and> set ps = set ys
       \<and> distinct ss \<and> set ss = set zs \<and> P fs ps ss)
     \<longleftrightarrow> (\<exists>fs \<in> set_orders xs. \<exists>ps \<in> set_orders ys. \<exists>ss \<in> set_orders zs. P fs ps ss)"
  unfolding set_orders_def by blast

lemma search_directory_for_urls_distinct:
  "distinct (search_directory_for_urls directory fc flag)"
  unfolding search_directory_for_urls_def
  by (rule scan_files_distinct) (simp add: empty_results_def)

lemma set_orders_self: "distinct xs \<Longrightarrow> xs \<in> set_orders xs"
  by (simp add: set_orders_def)

lemma category_choice:
  "(\<exists>order. (\<forall>flag. order flag \<in> S flag) \<and> P (order FULL_URL) (order PARTIAL_URL) (order FORWARD_SLASH))
     \<longleftrightarrow> (\<exists>fs \<in> S FULL_URL. \<exists>ps \<in> S PARTIAL_URL. \<exists>ss \<in> S FORWARD_SLASH. P fs ps ss)"
proof
  assume "\<exists>order. (\<forall>flag. order flag \<in> S flag)
     \<and> P (order FULL_URL) (order PARTIAL_URL) (order FORWARD_SLASH)"
  then show "\<exists>fs \<in> S FULL_URL. \<exists>ps \<in> S PARTIAL_URL. \<exists>ss \<in> S FORWARD_SLASH. P fs ps ss"
    by blast
next
  assume "\<exists>fs \<in> S FULL_URL. \<exists>ps \<in> S PARTIAL_URL. \<exists>ss \<in> S FORWARD_SLASH. P fs ps ss"
  then obtain fs ps ss where *: "fs \<in> S FULL_URL" "ps \<in> S PARTIAL_URL" "ss \<in> S FORWARD_SLASH"
    "P fs ps ss"
    by blast
  let ?order = "\<lambda>flag. case flag of FULL_URL \<Rightarrow> fs | PARTIAL_URL \<Rightarrow> ps | FORWARD_SLASH \<Rightarrow> ss"
  have "\<forall>flag. ?order flag \<in> S flag"
    using * by (auto split: category.splits)
  moreover have "P (?order FULL_URL) (?order PARTIAL_URL) (?order FORWARD_SLASH)"
    using * by simp
  ultimately show "\<exists>order. (\<forall>flag. order flag \<in> S flag)
     \<and> P (order FULL_URL) (order PARTIAL_URL) (order FORWARD_SLASH)"
    by blast
qed

lemma in_process_dir:
  "report \<in> process_dir dir_files output_file append_flag \<longleftrightarrow>
     (\<exists>fs \<in> set_orders (search_directory_for_urls dir_files dir_forbidden_characters FULL_URL).
      \<exists>ps \<in> set_orders (search_directory_for_urls dir_files dir_forbidden_characters PARTIAL_URL).
      \<exists>ss \<in> set_orders (search_directory_for_urls dir_files dir_forbidden_characters FORWARD_SLASH).
        report = write_file append_flag output_file
          (concat (map (url_line FULL_URL) fs)
           @ concat (map (url_line PARTIAL_URL) ps)
           @ concat (map (url_line FORWARD_SLASH) ss)))"
proof -
  let ?S = "\<lambda>flag. set_orders (search_directory_for_urls dir_files dir_forbidden_characters flag)"
  let ?P = "\<lambda>fs ps ss. report = write_file append_flag output_file
          (concat (map (url_line FULL_URL) fs)
           @ concat (map (url_line PARTIAL_URL) ps)
           @ concat (map (url_line FORWARD_SLASH) ss))"
  have "report \<in> process_dir dir_files output_file append_flag \<longleftrightarrow>
      (\<exists>order. (\<forall>flag. order flag \<in> ?S flag)
         \<and> ?P (order FULL_URL) (order PARTIAL_URL) (order FORWARD_SLASH))"
    by (auto simp add: process_dir_def flags_def Let_def)
  then show ?thesis
    unfolding category_choice [of ?S ?P] .
qed

lemma in_process_repo:
  "report \<in> process_repo cloned output_file append_flag \<longleftrightarrow>
     (\<exists>fs \<in> set_orders (search_directory_for_urls cloned repo_forbidden_characters FULL_URL).
      \<exists>ps \<in> set_orders (search_directory_for_urls cloned repo_forbidden_characters PARTIAL_URL).
      \<exists>ss \<in> set_orders (search_directory_for_urls cloned repo_forbidden_characters FORWARD_SLASH).
        report = write_file append_flag output_file
          (''FULL_URLS:'' @ newline
           @ concat (map (url_line FULL_URL) fs)
           @ newline @ ''PARTIAL_URLS:'' @ newline
           @ concat (map (url_line PARTIAL_URL) ps)
           @ newline @ ''FORWARD_SLASHES:'' @ newline
           @ concat (map (url_line FORWARD_SLASH) ss)))"
proof -
  let ?S = "\<lambda>flag. set_orders (search_directory_for_urls cloned repo_forbidden_characters flag)"
  let ?P = "\<lambda>fs ps ss. report = write_file append_flag output_file
          (''FULL_URLS:'' @ newline
           @ concat (map (url_line FULL_URL) fs)
           @ newline @ ''PARTIAL_URLS:'' @ newline
           @ concat (map (url_line PARTIAL_URL) ps)
           @ newline @ ''FORWARD_SLASHES:'' @ newline
           @ concat (map (url_line FORWARD_SLASH) ss))"
  have "report \<in> process_repo cloned output_file append_flag \<longleftrightarrow>
      (\<exists>order. (\<forall>flag. order flag \<in> ?S flag)
         \<and> ?P (order FULL_URL) (order PARTIAL_URL) (order FORWARD_SLASH))"
    by (auto simp add: process_repo_def flags_def repo_header_def Let_def)
  then show ?thesis
    unfolding category_choice [of ?S ?P] .
qed

lemma process_dir_nonempty: "process_dir dir_files output_file append_flag \<noteq> {}"
proof -
  have "\<exists>report. report \<in> process_dir dir_files output_file append_flag"
    unfolding in_process_dir
    using set_orders_self [OF search_directory_for_urls_distinct] by blast
  then show ?thesis by blast
qed

lemma process_repo_nonempty: "process_repo cloned output_file append_flag \<noteq> {}"
proof -
  have "\<exists>report. report \<in> process_repo cloned output_file append_flag"
    unfolding in_process_repo
    using set_orders_self [OF search_directory_for_urls_distinct] by blast
  then show ?thesis by blast
qed

text \<open>
  Claim C7, as amended. Both modes write one line \<open>CATEGORY: string\<close> for every string of the
  ResultSet, the categories in the order FULL_URL, PARTIAL_URL, FORWARD_SLASH; inside a
  category every string of the set has exactly one line, and the order of these lines is
  the iteration order of a set, which the program does not fix. The repository mode writes
  a header before the lines of each category (\<open>FULL_URLS:\<close>, then an empty line and
  \<open>PARTIAL_URLS:\<close>, then an empty line and \<open>FORWARD_SLASHES:\<close>); the directory mode writes no
  header at all. Each mode has at least one possible report.
\<close>

theorem C7_report_layout:
  "(report \<in> process_dir files out a \<longleftrightarrow>
     (\<exists>fs ps ss.
        distinct fs \<and> set fs = set (search_directory_for_urls files dir_forbidden_characters FULL_URL)
      \<and> distinct ps \<and> set ps = set (search_directory_for_urls files dir_forbidden_characters PARTIAL_URL)
      \<and> distinct ss \<and> set ss = set (search_directory_for_urls files dir_forbidden_characters FORWARD_SLASH)
      \<and> report = write_file a out
          (concat (map (url_line FULL_URL) fs)
           @ concat (map (url_line PARTIAL_URL) ps)
           @ concat (map (url_line FORWARD_SLASH) ss))))
   \<and> (report \<in> process_repo files out a \<longleftrightarrow>
     (\<exists>fs ps ss.
        distinct fs \<and> set fs = set (search_directory_for_urls files repo_forbidden_characters FULL_URL)
      \<and> distinct ps \<and> set ps = set (search_directory_for_urls files repo_forbidden_characters PARTIAL_URL)
      \<and> distinct ss \<and> set ss = set (search_directory_for_urls files repo_forbidden_characters FORWARD_SLASH)
      \<and> report = write_file a out
          (''FULL_URLS:'' @ newline
           @ concat (map (url_line FULL_URL) fs)
           @ newline @ ''PARTIAL_URLS:'' @ newline
           @ concat (map (url_line PARTIAL_URL) ps)
           @ newline @ ''FORWARD_SLASHES:'' @ newline
           @ concat (map (url_line FORWARD_SLASH) ss))))
   \<and> process_dir files out a \<noteq> {}
   \<and> process_repo files out a \<noteq> {}
   \<and> url_line flag url = flag_name flag @ '': '' @ url @ newline"
proof (intro conjI)
  show "report \<in> process_dir files out a \<longleftrightarrow>
     (\<exists>fs ps ss.
        distinct fs \<and> set fs = set (search_directory_for_urls files dir_forbidden_characters FULL_URL)
      \<and> distinct ps \<and> set ps = set (search_directory_for_urls files dir_forbidden_characters PARTIAL_URL)
      \<and> distinct ss \<and> set ss = set (search_directory_for_urls files dir_forbidden_characters FORWARD_SLASH)
      \<and> report = write_file a out
          (concat (map (url_line FULL_URL) fs)
           @ concat (map (url_line PARTIAL_URL) ps)
           @ concat (map (url_line FORWARD_SLASH) ss)))"
    unfolding in_process_dir three_orders ..
  show "report \<in> process_repo files out a \<longleftrightarrow>
     (\<exists>fs ps ss.
        distinct fs \<and> set fs = set (search_directory_for_urls files repo_forbidden_characters FULL_URL)
      \<and> distinct ps \<and> set ps = set (search_directory_for_urls files repo_forbidden_characters PARTIAL_URL)
      \<and> distinct ss \<and> set ss = set (search_directory_for_urls files repo_forbidden_characters FORWARD_SLASH)
      \<and> report = write_file a out
          (''FULL_URLS:'' @ newline
           @ concat (map (url_line FULL_URL) fs)
           @ newline @ ''PARTIAL_URLS:'' @ newline
           @ concat (map (url_line PARTIAL_URL) ps)
           @ newline @ ''FORWARD_SLASHES:'' @ newline
           @ concat (map (url_line FORWARD_SLASH) ss)))"
    unfolding in_process_repo three_orders ..
  show "process_dir files out a \<noteq> {}"
    by (rule process_dir_nonempty)
  show "process_repo files out a \<noteq> {}"
    by (rule process_repo_nonempty)
  show "url_line flag url = flag_name flag @ '': '' @ url @ newline"
    by (simp add: url_line_def)
qed

text \<open>
  The layout on a directory whose one file holds two paths that both fall in the PARTIAL_URL
  category: the directory mode can write them in either order, and in no other way.
\<close>

theorem C7_witness:
  "process_dir [\<lparr>path = ''d/f.txt'', text_probe = True, contents = Some ''./b /c''\<rparr>] [] False
     = {''PARTIAL_URL: /b'' @ newline @ ''PARTIAL_URL: /c'' @ newline
          @ ''FORWARD_SLASH: /c'' @ newline,
        ''PARTIAL_URL: /c'' @ newline @ ''PARTIAL_URL: /b'' @ newline
          @ ''FORWARD_SLASH: /c'' @ newline}"
proof -
  let ?files = "[\<lparr>path = ''d/f.txt'', text_probe = True, contents = Some ''./b /c''\<rparr>]"
  have f: "search_directory_for_urls ?files dir_forbidden_characters FULL_URL = []"
    by code_simp
  have p: "search_directory_for_urls ?files dir_forbidden_characters PARTIAL_URL = [''/b'', ''/c'']"
    by code_simp
  have s: "search_directory_for_urls ?files dir_forbidden_characters FORWARD_SLASH = [''/c'']"
    by code_simp
  have neq: "''/b'' \<noteq> ''/c''"
    by simp
  have mem: "report \<in> process_dir ?files [] False \<longleftrightarrow>
      report = write_file False [] (concat (map (url_line FULL_URL) [])
          @ concat (map (url_line PARTIAL_URL) [''/b'', ''/c''])
          @ concat (map (url_line FORWARD_SLASH) [''/c'']))
      \<or> report = write_file False [] (concat (map (url_line FULL_URL) [])
          @ concat (map (url_line PARTIAL_URL) [''/c'', ''/b''])
          @ concat (map (url_line FORWARD_SLASH) [''/c'']))" for report
    using C7_report_layout [of report ?files "[]" False, THEN conjunct1]
    unfolding f p s three_orders set_orders_Nil set_orders_single set_orders_two [OF neq]
    by blast
  have r1: "write_file False [] (concat (map (url_line FULL_URL) [])
          @ concat (map (url_line PARTIAL_URL) [''/b'', ''/c''])
          @ concat (map (url_line FORWARD_SLASH) [''/c'']))
      = ''PARTIAL_URL: /b'' @ newline @ ''PARTIAL_URL: /c'' @ newline
          @ ''FORWARD_SLASH: /c'' @ newline"
    by (simp add: write_file_def url_line_def)
  have r2: "write_file False [] (concat (map (url_line FULL_URL) [])
          @ concat (map (url_line PARTIAL_URL) [''/c'', ''/b''])
          @ concat (map (url_line FORWARD_SLASH) [''/c'']))
      = ''PARTIAL_URL: /c'' @ newline @ ''PARTIAL_URL: /b'' @ newline
          @ ''FORWARD_SLASH: /c'' @ newline"
    by (simp add: write_file_def url_line_def)
  show ?thesis
    by (rule set_eqI) (simp only: mem r1 r2 insert_iff empty_iff simp_thms)
qed

text \<open>
  Claim C7 as stated fails: for a directory whose one file holds a URL and a path of each
  kind, every category has one string, so the reports do not depend on any order. The
  report of the directory mode is the three lines of the matches and no header, while the
  repository mode writes the three headers for the same file.
\<close>

theorem C7_counterexample:
  "process_dir [\<lparr>path = ''d/f.txt'', text_probe = True,
       contents = Some (''http://a.io/x'' @ newline @ ''./b /c-d'')\<rparr>] [] False
     = {''FULL_URL: http://a.io/x'' @ newline @ ''PARTIAL_URL: /b'' @ newline
        @ ''FORWARD_SLASH: /c-d'' @ newline}
   \<and> process_repo [\<lparr>path = ''d/f.txt'', text_probe = True,
       contents = Some (''http://a.io/x'' @ newline @ ''./b /c-d'')\<rparr>] [] False
     = {''FULL_URLS:'' @ newline @ ''FULL_URL: http://a.io/x'' @ newline
        @ newline @ ''PARTIAL_URLS:'' @ newline @ ''PARTIAL_URL: /b'' @ newline
        @ newline @ ''FORWARD_SLASHES:'' @ newline @ ''FORWARD_SLASH: /c-d'' @ newline}"
proof -
  let ?files = "[\<lparr>path = ''d/f.txt'', text_probe = True,
       contents = Some (''http://a.io/x'' @ newline @ ''./b /c-d'')\<rparr>]"
  have d: "search_directory_for_urls ?files dir_forbidden_characters FULL_URL = [''http://a.io/x'']"
    "search_directory_for_urls ?files dir_forbidden_characters PARTIAL_URL = [''/b'']"
    "search_directory_for_urls ?files dir_forbidden_characters FORWARD_SLASH = [''/c-d'']"
    by code_simp+
  have r: "search_directory_for_urls ?files repo_forbidden_characters FULL_URL = [''http://a.io/x'']"
    "search_directory_for_urls ?files repo_forbidden_characters PARTIAL_URL = [''/b'']"
    "search_directory_for_urls ?files repo_forbidden_characters FORWARD_SLASH = [''/c-d'']"
    by code_simp+
  have "process_dir ?files [] False
     = {''FULL_URL: http://a.io/x'' @ newline @ ''PARTIAL_URL: /b'' @ newline
        @ ''FORWARD_SLASH: /c-d'' @ newline}"
    unfolding set_eq_iff in_process_dir d set_orders_single
    by (simp add: write_file_def url_line_def newline_def)
  moreover have "process_repo ?files [] False
     = {''FULL_URLS:'' @ newline @ ''FULL_URL: http://a.io/x'' @ newline
        @ newline @ ''PARTIAL_URLS:'' @ newline @ ''PARTIAL_URL: /b'' @ newline
        @ newline @ ''FORWARD_SLASHES:'' @ newline @ ''FORWARD_SLASH: /c-d'' @ newline}"
    unfolding set_eq_iff in_process_repo r set_orders_single
    by (simp add: write_file_def url_line_def newline_def)
  ultimately show ?thesis by (rule conjI)
qed


section \<open>Reasoning about the matcher\<close>

lemma in_rmatch_Atom:
  "(j, d) \<in> set (rmatch (Atom p) s (i, c)) \<longleftrightarrow> i < length s \<and> p (s ! i) \<and> j = Suc i \<and> d = c"
  by auto

lemma in_rmatch_chr:
  "(j, d) \<in> set (rmatch (chr x) s (i, c)) \<longleftrightarrow> i < length s \<and> s ! i = x \<and> j = Suc i \<and> d = c"
  by (auto simp add: chr_def)

lemma in_rmatch_Alt:
  "x \<in> set (rmatch (Alt a b) s (i, c)) \<longleftrightarrow>
     x \<in> set (rmatch a s (i, c)) \<or> x \<in> set (rmatch b s (i, c))"
  by simp

lemma in_rmatch_Opt:
  "x \<in> set (rmatch (Opt a) s (i, c)) \<longleftrightarrow> x \<in> set (rmatch a s (i, c)) \<or> x = (i, c)"
  by auto

lemma in_rmatch_Group:
  "(j, d) \<in> set (rmatch (Group a) s (i, c)) \<longleftrightarrow>
     d = Some (i, j) \<and> (\<exists>d'. (j, d') \<in> set (rmatch a s (i, c)))"
  by auto

lemma in_rmatch_Ahead:
  "x \<in> set (rmatch (Ahead a) s (i, c)) \<longleftrightarrow> x = (i, c) \<and> rmatch a s (i, c) \<noteq> []"
  by auto

lemma in_rmatch_NotAhead:
  "x \<in> set (rmatch (NotAhead a) s (i, c)) \<longleftrightarrow> x = (i, c) \<and> rmatch a s (i, c) = []"
  by auto

text \<open>A repetition of a part that only passes characters of a class passes only such characters.\<close>

lemma star_all:
  assumes body: "\<And>i c j d. (j, d) \<in> set (rmatch a s (i, c)) \<Longrightarrow> \<forall>m. i \<le> m \<and> m < j \<longrightarrow> P (s ! m)"
  shows "(j, d) \<in> set (rmatch (Star a) s (i, c)) \<Longrightarrow> \<forall>m. i \<le> m \<and> m < j \<longrightarrow> P (s ! m)"
proof (induction "length s - i" arbitrary: i c rule: less_induct)
  case less
  from less.prems consider "(j, d) = (i, c)"
    | k e where "(k, e) \<in> set (rmatch a s (i, c))" "i < k" "k \<le> length s"
        "(j, d) \<in> set (rmatch (Star a) s (k, e))"
    by (subst (asm) in_rmatch_Star) blast
  then show ?case
  proof cases
    case 1
    then show ?thesis by auto
  next
    case 2
    from 2(2,3) have "length s - k < length s - i" by simp
    from less.hyps [OF this 2(4)] body [OF 2(1)] show ?thesis
      by (metis not_le_imp_less)
  qed
qed

lemma star_atom_all:
  "(j, d) \<in> set (rmatch (Star (Atom P)) s (i, c)) \<Longrightarrow>
     i \<le> j \<and> j \<le> max i (length s) \<and> d = c \<and> (\<forall>m. i \<le> m \<and> m < j \<longrightarrow> P (s ! m))"
proof (induction "length s - i" arbitrary: i rule: less_induct)
  case less
  from less.prems consider "(j, d) = (i, c)"
    | k e where "(k, e) \<in> set (rmatch (Atom P) s (i, c))" "i < k" "k \<le> length s"
        "(j, d) \<in> set (rmatch (Star (Atom P)) s (k, e))"
    by (subst (asm) in_rmatch_Star) blast
  then show ?case
  proof cases
    case 1
    then show ?thesis by auto
  next
    case 2
    from 2(1) have k: "k = Suc i" "e = c" "P (s ! i)" "i < length s"
      by (simp_all add: in_rmatch_Atom)
    then have "length s - k < length s - i" by simp
    from less.hyps [OF this] 2(4) k
    have "k \<le> j \<and> j \<le> max k (length s) \<and> d = c \<and> (\<forall>m. k \<le> m \<and> m < j \<longrightarrow> P (s ! m))"
      by simp
    with k show ?thesis
      by (auto simp add: less_Suc_eq_le dest: le_neq_implies_less)
  qed
qed

text \<open>
  The repetition of a class can stop after every prefix of the run of the class that
  starts at the position.
\<close>

lemma star_atom_reach:
  assumes "i \<le> j" "j \<le> length s" "\<forall>m. i \<le> m \<and> m < j \<longrightarrow> P (s ! m)"
  shows "(j, c) \<in> set (rmatch (Star (Atom P)) s (i, c))"
  using assms
proof (induction "j - i" arbitrary: i)
  case 0
  then have "j = i" by simp
  then show ?case by (subst in_rmatch_Star) simp
next
  case (Suc n)
  then have lt: "i < j" by simp
  with Suc.prems have step: "(Suc i, c) \<in> set (rmatch (Atom P) s (i, c))"
    by (simp add: in_rmatch_Atom)
  have "(j, c) \<in> set (rmatch (Star (Atom P)) s (Suc i, c))"
    using Suc.hyps(2) Suc.prems lt by (intro Suc.hyps(1)) auto
  with step lt Suc.prems(2) show ?case
    by (subst in_rmatch_Star) (metis Suc_leI lessI less_le_trans)
qed

text \<open>A literal matches exactly where the text continues with it.\<close>

lemma in_rmatch_Eps: "x \<in> set (rmatch Eps s (i, c)) \<longleftrightarrow> x = (i, c)"
  by simp

lemma in_rmatch_lit:
  "(j, d) \<in> set (rmatch (lit w) s (i, c)) \<longleftrightarrow>
     j = i + length w \<and> d = c \<and> take (length w) (drop i s) = w"
proof (induction w arbitrary: i)
  case Nil
  show ?case by (auto simp add: lit_def)
next
  case (Cons x w)
  have hd: "take (Suc (length w)) (drop i s) = x # w \<longleftrightarrow>
      i < length s \<and> s ! i = x \<and> take (length w) (drop (Suc i) s) = w"
  proof (cases "i < length s")
    case True
    then have "drop i s = s ! i # drop (Suc i) s"
      by (simp add: Cons_nth_drop_Suc)
    then show ?thesis using True by simp
  next
    case False
    then show ?thesis by simp
  qed
  show ?case
  proof (cases w)
    case Nil
    with hd show ?thesis
      by (auto simp add: lit_def in_rmatch_chr)
  next
    case (Cons y v)
    then have "lit (x # w) = Cat (chr x) (lit w)"
      by (simp add: lit_def)
    then show ?thesis
      using hd Cons.IH [of "Suc i"] by (auto simp add: in_rmatch_Cat in_rmatch_chr)
  qed
qed

lemma in_rmatch_lit_slice:
  assumes "(j, d) \<in> set (rmatch (lit w) s (i, c))"
  shows "j = i + length w" "d = c" "slice s i j = w" "w \<noteq> [] \<Longrightarrow> j \<le> length s"
proof -
  from assms have a: "j = i + length w" "d = c" "take (length w) (drop i s) = w"
    by (simp_all only: in_rmatch_lit)
  then show "j = i + length w" "d = c" "slice s i j = w"
    by (simp_all add: slice_def)
  from a(3) have "length (take (length w) (drop i s)) = length w"
    by simp
  then have "length w \<le> length s - i"
    by simp
  then show "j \<le> length s" if "w \<noteq> []"
    using that a(1) by (cases w) auto
qed

lemma match_at_mem:
  "match_at r s i ma = Some m \<Longrightarrow> m \<in> set (rmatch r s (i, None))"
proof -
  assume "match_at r s i ma = Some m"
  then have "m \<in> set (filter (\<lambda>(j, c). \<not> (ma \<and> j = i)) (rmatch r s (i, None)))"
    unfolding match_at_def by (auto split: list.splits simp del: filter.simps set_filter)
  then show ?thesis by simp
qed

lemma search_mem:
  "search r s i ma = Some (b, m) \<Longrightarrow> m \<in> set (rmatch r s (b, None))"
proof (induction r s i ma rule: search.induct)
  case (1 r s i ma)
  show ?case
  proof (cases "match_at r s i ma")
    case None
    with "1.prems" have lt: "i < length s" and rec: "search r s (i + 1) False = Some (b, m)"
      by (auto simp add: search.simps [of r s i] split: if_splits)
    from "1.IH" [OF None lt rec] show ?thesis .
  next
    case (Some m')
    with "1.prems" have "m' = m" "b = i"
      by (auto simp add: search.simps [of r s i])
    with Some show ?thesis by (simp add: match_at_mem)
  qed
qed

lemma scan_None: "search r s start ma = None \<Longrightarrow> scan r s start ma = []"
  by (subst scan.simps) simp

lemma scan_Some:
  "search r s start ma = Some (b, e, c) \<Longrightarrow> start \<le> length s \<Longrightarrow>
     scan r s start ma = (b, e, c) # scan r s e (e = b)"
  by (subst scan.simps) simp

lemma scan_out: "\<not> start \<le> length s \<Longrightarrow> scan r s start ma = []"
  by (subst scan.simps) simp

lemma scan_mem:
  "(b, e, c) \<in> set (scan r s start ma) \<Longrightarrow> (e, c) \<in> set (rmatch r s (b, None))"
proof (induction r s start ma rule: scan.induct)
  case (1 r s start ma)
  show ?case
  proof (cases "search r s start ma")
    case None
    with "1.prems" show ?thesis
      by (simp add: scan_None)
  next
    case (Some x)
    obtain b' e' c' where x: "x = (b', e', c')" by (cases x) auto
    from "1.prems" have le: "start \<le> length s"
      by (rule contrapos_pp) (simp add: scan_out)
    from "1.prems" have mem: "(b, e, c) = (b', e', c') \<or> (b, e, c) \<in> set (scan r s e' (e' = b'))"
      unfolding scan_Some [OF Some [unfolded x] le] by simp
    from mem show ?thesis
    proof
      assume "(b, e, c) = (b', e', c')"
      with Some x search_mem [of r s start ma b "(e, c)"] show ?thesis by simp
    next
      assume "(b, e, c) \<in> set (scan r s e' (e' = b'))"
      with "1.IH" le Some x show ?thesis by blast
    qed
  qed
qed

text \<open>
  The characters that the repeated part of the FULL_URL pattern accepts: the union of its
  four bracket expressions. The fifth alternative, a percent sign and two hexadecimal
  digits, accepts characters of this union only.
\<close>

definition url_class :: "char \<Rightarrow> bool" where
  "url_class c = (cls_letter c \<or> cls_digit c \<or> cls_punct c \<or> cls_extra c)"

definition url_body :: re where
  "url_body = alts [Atom cls_letter, Atom cls_digit, Atom cls_punct, Atom cls_extra,
                 seq [chr CHR ''%'', Atom cls_hex, Atom cls_hex]]"

lemma cls_hex_url_class: "cls_hex c \<Longrightarrow> url_class c"
  by (auto simp add: cls_hex_def url_class_def cls_letter_def cls_digit_def in_range_def)

lemma percent_url_class: "url_class CHR ''%''"
  by (simp add: url_class_def cls_punct_def in_range_def)

lemma url_body_all:
  assumes "(j, d) \<in> set (rmatch url_body s (i, c))"
  shows "\<forall>m. i \<le> m \<and> m < j \<longrightarrow> url_class (s ! m)"
proof -
  from assms consider "j = Suc i" "url_class (s ! i)"
    | "j = Suc (Suc (Suc i))" "s ! i = CHR ''%''" "cls_hex (s ! Suc i)" "cls_hex (s ! Suc (Suc i))"
    unfolding url_body_def
    by (auto simp add: in_rmatch_Cat in_rmatch_Alt in_rmatch_chr in_rmatch_Atom url_class_def
        simp del: rmatch.simps)
  then show ?thesis
  proof cases
    case 1
    then show ?thesis by (auto simp add: less_Suc_eq_le)
  next
    case 2
    show ?thesis
    proof (intro allI impI)
      fix m
      assume "i \<le> m \<and> m < j"
      with 2(1) have "m = i \<or> m = Suc i \<or> m = Suc (Suc i)" by auto
      with 2 show "url_class (s ! m)"
        by (auto simp add: cls_hex_url_class percent_url_class)
    qed
  qed
qed

lemma url_pattern_unfold:
  "url_pattern = Cat (lit ''http'') (Cat (Opt (chr CHR ''s'')) (Cat (lit ''://'') (Cat url_body (Star url_body))))"
  by (simp add: url_pattern_def url_body_def plus_def)

lemma slice_split:
  "i \<le> k \<Longrightarrow> k \<le> j \<Longrightarrow> slice s i j = slice s i k @ slice s k j"
proof -
  assume a: "i \<le> k" "k \<le> j"
  then have "j - i = (k - i) + (j - k)" by simp
  then have "take (j - i) (drop i s) = take (k - i) (drop i s) @ take (j - k) (drop (k - i) (drop i s))"
    by (simp only: take_add)
  with a show ?thesis by (simp add: slice_def)
qed

lemma set_slice:
  "j \<le> length s \<Longrightarrow> x \<in> set (slice s i j) \<Longrightarrow> \<exists>m. i \<le> m \<and> m < j \<and> x = s ! m"
proof -
  assume j: "j \<le> length s" and "x \<in> set (slice s i j)"
  then obtain n where n: "n < length (slice s i j)" "x = slice s i j ! n"
    by (auto simp add: in_set_conv_nth)
  then have "n < j - i" by (simp add: slice_def)
  with n j have "x = s ! (i + n)" by (simp add: slice_def)
  with \<open>n < j - i\<close> show ?thesis by (intro exI [of _ "i + n"]) auto
qed

lemma url_pattern_sound:
  assumes "(e, d) \<in> set (rmatch url_pattern s (b, c))"
  shows "\<exists>rest. (slice s b e = ''http://'' @ rest \<or> slice s b e = ''https://'' @ rest)
           \<and> (\<forall>x \<in> set rest. url_class x)"
proof -
  from assms obtain k1 c1 where
    m1: "(k1, c1) \<in> set (rmatch (lit ''http'') s (b, c))"
    and r1: "(e, d) \<in> set (rmatch (Cat (Opt (chr CHR ''s'')) (Cat (lit ''://'') (Cat url_body (Star url_body)))) s (k1, c1))"
    unfolding url_pattern_unfold in_rmatch_Cat [of _ "lit ''http''"] by blast
  from r1 obtain k2 c2 where
    m2: "(k2, c2) \<in> set (rmatch (Opt (chr CHR ''s'')) s (k1, c1))"
    and r2: "(e, d) \<in> set (rmatch (Cat (lit ''://'') (Cat url_body (Star url_body))) s (k2, c2))"
    unfolding in_rmatch_Cat [of _ "Opt (chr CHR ''s'')"] by blast
  from r2 obtain k3 c3 where
    m3: "(k3, c3) \<in> set (rmatch (lit ''://'') s (k2, c2))"
    and body': "(e, d) \<in> set (rmatch (Cat url_body (Star url_body)) s (k3, c3))"
    unfolding in_rmatch_Cat [of _ "lit ''://''"] by blast
  note h = in_rmatch_lit_slice [OF m1]
  from m2 have o: "k2 = k1 \<or> (k2 = Suc k1 \<and> k1 < length s \<and> s ! k1 = CHR ''s'')" and c2: "c2 = c1"
    by (auto simp add: in_rmatch_Opt in_rmatch_chr simp del: rmatch.simps)
  note l = in_rmatch_lit_slice [OF m3]
  from body' h(2) c2 l(2) have body: "(e, d) \<in> set (rmatch (Cat url_body (Star url_body)) s (k3, c))"
    by simp
  from body obtain k4 d4 where first: "(k4, d4) \<in> set (rmatch url_body s (k3, c))"
    and star: "(e, d) \<in> set (rmatch (Star url_body) s (k4, d4))"
    unfolding in_rmatch_Cat by blast
  have all1: "\<forall>m. k3 \<le> m \<and> m < k4 \<longrightarrow> url_class (s ! m)"
    using url_body_all [OF first] .
  have all2: "\<forall>m. k4 \<le> m \<and> m < e \<longrightarrow> url_class (s ! m)"
    using star by (rule star_all [of url_body s url_class, rotated]) (rule url_body_all)
  from rmatch_bounds [OF first] rmatch_bounds [OF star] have le: "k3 \<le> k4" "k4 \<le> e"
    by simp_all
  have all: "\<forall>m. k3 \<le> m \<and> m < e \<longrightarrow> url_class (s ! m)"
    using all1 all2 by (metis not_le_imp_less)
  have k3s: "k3 \<le> length s"
    using l(4) by simp
  with rmatch_bounds [OF first] rmatch_bounds [OF star] have es: "e \<le> length s"
    by simp
  have rest: "\<forall>x \<in> set (slice s k3 e). url_class x"
    using set_slice [OF es] all by blast
  have bk: "b \<le> k1" "k1 \<le> k2" "k2 \<le> k3"
    using h(1) l(1) o by auto
  have split: "slice s b e = slice s b k3 @ slice s k3 e"
    using bk le by (intro slice_split) auto
  have s2: "slice s k1 k2 = [] \<or> slice s k1 k2 = ''s''"
    using o by (auto simp add: slice_def take_Suc_conv_app_nth)
  have "slice s b k3 = slice s b k1 @ slice s k1 k2 @ slice s k2 k3"
    using bk slice_split [of b k1 k3 s] slice_split [of k1 k2 k3 s] by simp
  with s2 h(3) l(3) have pre: "slice s b k3 = ''http://'' \<or> slice s b k3 = ''https://''"
    by auto
  from pre split rest show ?thesis by auto
qed


section \<open>The claim about the full URLs\<close>

lemma groups_url_pattern: "groups url_pattern = 0"
  by (simp add: url_pattern_def lit_def plus_def chr_def)

lemma groups_partial_url_pattern: "groups partial_url_pattern = 1"
  by (simp add: partial_url_pattern_def left_boundary_def no_double_slash_def no_double_star_def
      no_comment_opener_def right_boundary_def no_comma_def lit_def chr_def)

lemma groups_forward_slash_pattern: "groups forward_slash_pattern = 1"
  by (simp add: forward_slash_pattern_def left_boundary_def no_double_slash_def
      no_double_star_def no_comment_opener_def right_boundary_def no_comma_def lit_def chr_def)

lemma findall_url_pattern:
  assumes "u \<in> set (findall url_pattern s)"
  shows "\<exists>rest. (u = ''http://'' @ rest \<or> u = ''https://'' @ rest) \<and> (\<forall>x \<in> set rest. url_class x)"
proof -
  from assms obtain b e c where "(b, e, c) \<in> set (scan url_pattern s 0 False)" "u = slice s b e"
    by (auto simp add: findall_def groups_url_pattern)
  with scan_mem [of b e c url_pattern s 0 False] url_pattern_sound [of e c s b None]
  show ?thesis by simp
qed

lemma rstrip_append:
  assumes "p \<noteq> []" "last p \<notin> set cs"
  shows "rstrip cs (p @ r) = p @ rstrip cs r"
proof -
  from assms have "dropWhile (\<lambda>c. c \<in> set cs) (rev p) = rev p"
    by (cases p rule: rev_cases) auto
  then show ?thesis
    by (simp add: rstrip_def dropWhile_append)
qed

lemma set_rstrip: "set (rstrip cs r) \<subseteq> set r"
  by (auto simp add: rstrip_def dest: set_dropWhileD)

lemma rstrip_prefix: "\<exists>t. u = rstrip cs u @ t"
proof -
  have "rev u = takeWhile (\<lambda>c. c \<in> set cs) (rev u) @ dropWhile (\<lambda>c. c \<in> set cs) (rev u)"
    by simp
  then have "u = rev (dropWhile (\<lambda>c. c \<in> set cs) (rev u)) @ rev (takeWhile (\<lambda>c. c \<in> set cs) (rev u))"
    by (metis rev_append rev_rev_ident)
  then show ?thesis
    unfolding rstrip_def by blast
qed

lemma in_tagged:
  "m \<in> set (tagged pat flag text repo fp) \<Longrightarrow>
     fst (snd m) = flag \<and> (\<exists>u \<in> set (findall pat text). fst m = rstrip '','' u)"
  by (auto simp add: tagged_def in_set_enumerate_eq)

lemma in_clean_urls:
  "m \<in> set (clean_urls ms) \<Longrightarrow> \<exists>m' \<in> set ms. fst m = clean_url (fst m') \<and> snd m = snd m'"
proof -
  assume "m \<in> set (clean_urls ms)"
  then obtain m' where "m' \<in> set ms" "m = (clean_url (fst m'), snd m')"
    by (auto simp add: clean_urls_def case_prod_beta)
  then show ?thesis by auto
qed

text \<open>
  Claim C2. Every string that \<open>extract_urls\<close> returns in the FULL_URL category starts with
  \<open>http://\<close> or \<open>https://\<close>, and every character after the scheme is in the character class
  of the FULL_URL pattern (\<open>url_class\<close>, the union of its four bracket expressions).
\<close>

theorem C2_full_urls_well_formed:
  "\<forall>m \<in> set (extract_urls text repo file_path). fst (snd m) = FULL_URL \<longrightarrow>
     (\<exists>rest. (fst m = ''http://'' @ rest \<or> fst m = ''https://'' @ rest)
        \<and> (\<forall>x \<in> set rest. url_class x))"
proof (intro ballI impI)
  fix m
  assume m: "m \<in> set (extract_urls text repo file_path)" and flag: "fst (snd m) = FULL_URL"
  have "m \<in> set (tagged url_pattern FULL_URL text repo file_path)"
  proof (rule ccontr)
    assume "m \<notin> set (tagged url_pattern FULL_URL text repo file_path)"
    with m consider "m \<in> set (clean_urls (tagged partial_url_pattern PARTIAL_URL text repo file_path))"
      | "m \<in> set (clean_urls (tagged forward_slash_pattern FORWARD_SLASH text repo file_path))"
      by (auto simp add: extract_urls_def)
    then show False
    proof cases
      case 1
      from in_clean_urls [OF 1] in_tagged flag show False by fastforce
    next
      case 2
      from in_clean_urls [OF 2] in_tagged flag show False by fastforce
    qed
  qed
  from in_tagged [OF this] obtain u where u: "u \<in> set (findall url_pattern text)"
    and fm: "fst m = rstrip '','' u"
    by blast
  from findall_url_pattern [OF u] obtain rest where
    rest: "u = ''http://'' @ rest \<or> u = ''https://'' @ rest" "\<forall>x \<in> set rest. url_class x"
    by blast
  have h1: "rstrip '','' (''http://'' @ rest) = ''http://'' @ rstrip '','' rest"
    by (rule rstrip_append) simp_all
  have h2: "rstrip '','' (''https://'' @ rest) = ''https://'' @ rstrip '','' rest"
    by (rule rstrip_append) simp_all
  from rest(1) have "fst m = ''http://'' @ rstrip '','' rest \<or> fst m = ''https://'' @ rstrip '','' rest"
    using fm h1 h2 by metis
  moreover from rest(2) set_rstrip [of "'',''" rest] have "\<forall>x \<in> set (rstrip '','' rest). url_class x"
    by blast
  ultimately show "\<exists>rest. (fst m = ''http://'' @ rest \<or> fst m = ''https://'' @ rest)
        \<and> (\<forall>x \<in> set rest. url_class x)"
    by blast
qed

theorem C2_witness:
  "extract_urls ''Visit https://example.com/a,b, for info'' ''d'' ''d/f.txt''
     = [(''https://example.com/a,b'', FULL_URL, ''d'', ''d/f.txt'', 1)]
   \<and> (\<exists>rest. ''https://example.com/a,b'' = ''https://'' @ rest \<and> list_all url_class rest)"
proof -
  have e: "extract_urls ''Visit https://example.com/a,b, for info'' ''d'' ''d/f.txt''
     = [(''https://example.com/a,b'', FULL_URL, ''d'', ''d/f.txt'', 1)]"
    by code_simp
  from C2_full_urls_well_formed [of "''Visit https://example.com/a,b, for info''" "''d''" "''d/f.txt''"]
  show ?thesis
    unfolding e by (auto simp add: list_all_iff)
qed


section \<open>The shape of the path matches\<close>

text \<open>The groups of the two path patterns.\<close>

definition partial_token :: re where
  "partial_token = alts [seq [lit ''./'', Star (Atom cls_path)],
                         seq [lit ''../'', Star (Atom cls_path)],
                         seq [chr CHR ''/'', Star (Atom cls_path)]]"

definition forward_token :: re where
  "forward_token = seq [chr CHR ''/'', Star (Atom cls_token)]"

lemma partial_url_pattern_unfold:
  "partial_url_pattern = Cat left_boundary (Cat no_double_slash (Cat no_double_star
     (Cat no_comment_opener (Cat (Group partial_token) (Cat right_boundary no_comma)))))"
  by (simp add: partial_url_pattern_def partial_token_def)

lemma forward_slash_pattern_unfold:
  "forward_slash_pattern = Cat left_boundary (Cat no_double_slash (Cat no_double_star
     (Cat no_comment_opener (Cat (Opt (Group forward_token)) (Cat right_boundary no_comma)))))"
  by (simp add: forward_slash_pattern_def forward_token_def)

lemma left_boundary_mem:
  assumes "(p, d) \<in> set (rmatch left_boundary s (b, c))"
  shows "d = c \<and> ((p = b \<and> b = 0) \<or> (p = Suc b \<and> b < length s \<and> (re_space (s ! b) \<or> cls_quote (s ! b))))"
  using assms by (auto simp add: left_boundary_def split: if_splits)

lemma lookahead_state:
  "x \<in> set (rmatch no_double_slash s (p, c)) \<Longrightarrow> x = (p, c)"
  "x \<in> set (rmatch no_double_star s (p, c)) \<Longrightarrow> x = (p, c)"
  "x \<in> set (rmatch no_comment_opener s (p, c)) \<Longrightarrow> x = (p, c)"
  "x \<in> set (rmatch right_boundary s (p, c)) \<Longrightarrow> x = (p, c)"
  "x \<in> set (rmatch no_comma s (p, c)) \<Longrightarrow> x = (p, c)"
  unfolding no_double_slash_def no_double_star_def no_comment_opener_def right_boundary_def
    no_comma_def in_rmatch_NotAhead in_rmatch_Ahead
  by simp_all

lemma star_start: "(i, c) \<in> set (rmatch (Star a) s (i, c))"
  by (subst in_rmatch_Star) simp

lemma drop_two:
  "Suc p < length s \<Longrightarrow> drop p s = s ! p # s ! Suc p # drop (Suc (Suc p)) s"
  by (metis Cons_nth_drop_Suc Suc_lessD)

lemma slice_nth:
  "j \<le> length s \<Longrightarrow> i + n < j \<Longrightarrow> slice s i j ! n = s ! (i + n)"
  by (simp add: slice_def)

lemma no_double_slash_mem:
  assumes "x \<in> set (rmatch no_double_slash s (p, c))"
  shows "\<not> (Suc p < length s \<and> s ! p = CHR ''/'' \<and> s ! Suc p = CHR ''/'')"
proof
  assume a: "Suc p < length s \<and> s ! p = CHR ''/'' \<and> s ! Suc p = CHR ''/''"
  then have "drop p s = s ! p # s ! Suc p # drop (Suc (Suc p)) s"
    by (intro drop_two) simp
  with a have "take (length ''//'') (drop p s) = ''//''"
    by simp
  then have "(p + length ''//'', c) \<in> set (rmatch (lit ''//'') s (p, c))"
    by (simp only: in_rmatch_lit)
  with star_start [of p c "Atom re_dot" s]
  have "(p + length ''//'', c) \<in> set (rmatch (Cat (Star (Atom re_dot)) (lit ''//'')) s (p, c))"
    unfolding in_rmatch_Cat by blast
  moreover from assms have "rmatch (Cat (Star (Atom re_dot)) (lit ''//'')) s (p, c) = []"
    unfolding no_double_slash_def in_rmatch_NotAhead by simp
  ultimately show False by simp
qed

lemma partial_token_mem:
  assumes "(q, d) \<in> set (rmatch partial_token s (p, c))"
  shows "d = c \<and> p < q \<and> q \<le> length s \<and> (\<forall>m. p \<le> m \<and> m < q \<longrightarrow> cls_path (s ! m))
     \<and> (startswith (slice s p q) ''./'' \<or> startswith (slice s p q) ''../''
          \<or> startswith (slice s p q) ''/'')"
proof -
  have tail: "d = c \<and> p < q \<and> q \<le> length s \<and> (\<forall>m. p \<le> m \<and> m < q \<longrightarrow> cls_path (s ! m))
      \<and> startswith (slice s p q) w"
    if w: "w \<noteq> []" "\<forall>x \<in> set w. cls_path x"
      and m: "(q, d) \<in> set (rmatch (Cat (lit w) (Star (Atom cls_path))) s (p, c))" for w
  proof -
    from m obtain k e where k: "(k, e) \<in> set (rmatch (lit w) s (p, c))"
      and st: "(q, d) \<in> set (rmatch (Star (Atom cls_path)) s (k, e))"
      unfolding in_rmatch_Cat by blast
    note l = in_rmatch_lit_slice [OF k]
    from l(4) w have ks: "k \<le> length s" by simp
    from star_atom_all [OF st] ks have s': "k \<le> q" "q \<le> length s" "d = e"
      "\<forall>m. k \<le> m \<and> m < q \<longrightarrow> cls_path (s ! m)"
      by (simp_all add: max_def)
    have pre: "\<forall>m. p \<le> m \<and> m < k \<longrightarrow> cls_path (s ! m)"
    proof (intro allI impI)
      fix m assume a: "p \<le> m \<and> m < k"
      with l(1) have "m - p < length w" by auto
      moreover from a ks have "slice s p k ! (m - p) = s ! m"
        using slice_nth [of k s p "m - p"] by simp
      ultimately show "cls_path (s ! m)"
        using w(2) l(3) by (metis nth_mem)
    qed
    have "slice s p q = slice s p k @ slice s k q"
      using l(1) s'(1) by (intro slice_split) simp_all
    with l(3) have "startswith (slice s p q) w"
      by (simp add: startswith_def)
    moreover from l(1) w(1) have "p < k" by (cases w) simp_all
    moreover have "\<forall>m. p \<le> m \<and> m < q \<longrightarrow> cls_path (s ! m)"
      using pre s'(4) by (metis not_le_imp_less)
    ultimately show ?thesis
      using s' l(2) by simp
  qed
  have chr_lit: "chr CHR ''/'' = lit ''/''"
    by (simp add: lit_def)
  from assms consider
      "(q, d) \<in> set (rmatch (Cat (lit ''./'') (Star (Atom cls_path))) s (p, c))"
    | "(q, d) \<in> set (rmatch (Cat (lit ''../'') (Star (Atom cls_path))) s (p, c))"
    | "(q, d) \<in> set (rmatch (Cat (lit ''/'') (Star (Atom cls_path))) s (p, c))"
    unfolding partial_token_def chr_lit
    by (simp only: alts.simps seq.simps in_rmatch_Alt) blast
  then show ?thesis
  proof cases
    case 1
    from tail [OF _ _ 1] show ?thesis by (simp add: cls_path_def)
  next
    case 2
    from tail [OF _ _ 2] show ?thesis by (simp add: cls_path_def)
  next
    case 3
    from tail [OF _ _ 3] show ?thesis by (simp add: cls_path_def)
  qed
qed

lemma forward_token_mem:
  assumes "(q, d) \<in> set (rmatch forward_token s (p, c))"
  shows "d = c \<and> p < q \<and> q \<le> length s \<and> s ! p = CHR ''/''
     \<and> (\<forall>m. p < m \<and> m < q \<longrightarrow> cls_token (s ! m))"
proof -
  from assms obtain k e where k: "(k, e) \<in> set (rmatch (chr CHR ''/'') s (p, c))"
    and st: "(q, d) \<in> set (rmatch (Star (Atom cls_token)) s (k, e))"
    unfolding forward_token_def by (simp only: seq.simps in_rmatch_Cat) blast
  from k have k': "k = Suc p" "e = c" "p < length s" "s ! p = CHR ''/''"
    by (simp_all only: in_rmatch_chr)
  from star_atom_all [OF st] k' show ?thesis
    by (auto simp add: max_def)
qed

text \<open>What a match of the PARTIAL_URL pattern that starts at \<open>b\<close> looks like.\<close>

lemma partial_url_pattern_sound:
  assumes "(e, cap) \<in> set (rmatch partial_url_pattern s (b, c0))"
  obtains p where "cap = Some (p, e)"
    and "(p = b \<and> b = 0) \<or> (p = Suc b \<and> b < length s \<and> (re_space (s ! b) \<or> cls_quote (s ! b)))"
    and "p < e" and "e \<le> length s" and "\<forall>m. p \<le> m \<and> m < e \<longrightarrow> cls_path (s ! m)"
    and "\<not> (Suc p < length s \<and> s ! p = CHR ''/'' \<and> s ! Suc p = CHR ''/'')"
    and "startswith (slice s p e) ''./'' \<or> startswith (slice s p e) ''../''
          \<or> startswith (slice s p e) ''/''"
proof -
  from assms obtain p c1 where lb: "(p, c1) \<in> set (rmatch left_boundary s (b, c0))"
    and r1: "(e, cap) \<in> set (rmatch (Cat no_double_slash (Cat no_double_star
      (Cat no_comment_opener (Cat (Group partial_token) (Cat right_boundary no_comma))))) s (p, c1))"
    unfolding partial_url_pattern_unfold in_rmatch_Cat [of _ left_boundary] by blast
  from r1 obtain x2 where nds: "x2 \<in> set (rmatch no_double_slash s (p, c1))"
    and r2: "(e, cap) \<in> set (rmatch (Cat no_double_star
      (Cat no_comment_opener (Cat (Group partial_token) (Cat right_boundary no_comma)))) s x2)"
    unfolding in_rmatch_Cat [of _ no_double_slash] by blast
  from lookahead_state(1) [OF nds] have x2: "x2 = (p, c1)" .
  from r2 obtain x3 where a3: "x3 \<in> set (rmatch no_double_star s (p, c1))"
    and r3: "(e, cap) \<in> set (rmatch
      (Cat no_comment_opener (Cat (Group partial_token) (Cat right_boundary no_comma))) s x3)"
    unfolding x2 in_rmatch_Cat [of _ no_double_star] by blast
  from lookahead_state(2) [OF a3] have x3: "x3 = (p, c1)" .
  from r3 obtain x4 where a4: "x4 \<in> set (rmatch no_comment_opener s (p, c1))"
    and r4: "(e, cap) \<in> set (rmatch (Cat (Group partial_token) (Cat right_boundary no_comma)) s x4)"
    unfolding x3 in_rmatch_Cat [of _ no_comment_opener] by blast
  from lookahead_state(3) [OF a4] have x4: "x4 = (p, c1)" .
  from r4 obtain q d where g: "(q, d) \<in> set (rmatch (Group partial_token) s (p, c1))"
    and r5: "(e, cap) \<in> set (rmatch (Cat right_boundary no_comma) s (q, d))"
    unfolding x4 in_rmatch_Cat [of _ "Group partial_token"] by blast
  from r5 obtain x6 where a6: "x6 \<in> set (rmatch right_boundary s (q, d))"
    and r6: "(e, cap) \<in> set (rmatch no_comma s x6)"
    unfolding in_rmatch_Cat [of _ right_boundary] by blast
  from lookahead_state(4) [OF a6] have x6: "x6 = (q, d)" .
  from lookahead_state(5) [OF r6 [unfolded x6]] have fin: "e = q" "cap = d" by simp_all
  from g obtain d' where d: "d = Some (p, q)" and tok: "(q, d') \<in> set (rmatch partial_token s (p, c1))"
    unfolding in_rmatch_Group by blast
  from partial_token_mem [OF tok] have t1: "p < q" and t2: "q \<le> length s"
    and t3: "\<forall>m. p \<le> m \<and> m < q \<longrightarrow> cls_path (s ! m)"
    and t4: "startswith (slice s p q) ''./'' \<or> startswith (slice s p q) ''../''
          \<or> startswith (slice s p q) ''/''"
    by blast+
  from left_boundary_mem [OF lb]
  have l: "(p = b \<and> b = 0) \<or> (p = Suc b \<and> b < length s \<and> (re_space (s ! b) \<or> cls_quote (s ! b)))"
    by (rule conjunct2)
  show thesis
  proof (rule that [of p])
    show "cap = Some (p, e)" using fin d by simp
    show "(p = b \<and> b = 0) \<or> (p = Suc b \<and> b < length s \<and> (re_space (s ! b) \<or> cls_quote (s ! b)))"
      by (rule l)
    show "p < e" using t1 fin by simp
    show "e \<le> length s" using t2 fin by simp
    show "\<forall>m. p \<le> m \<and> m < e \<longrightarrow> cls_path (s ! m)" using t3 fin by simp
    show "\<not> (Suc p < length s \<and> s ! p = CHR ''/'' \<and> s ! Suc p = CHR ''/'')"
      by (rule no_double_slash_mem [OF nds])
    show "startswith (slice s p e) ''./'' \<or> startswith (slice s p e) ''../''
          \<or> startswith (slice s p e) ''/''" using t4 fin by simp
  qed
qed

text \<open>What a match of the FORWARD_SLASH pattern that starts at \<open>b\<close> looks like.\<close>

lemma forward_slash_pattern_sound:
  assumes "(e, cap) \<in> set (rmatch forward_slash_pattern s (b, None))"
  shows "cap = None \<or> (\<exists>p. cap = Some (p, e) \<and> p < e \<and> e \<le> length s \<and> s ! p = CHR ''/''
     \<and> \<not> (Suc p < length s \<and> s ! p = CHR ''/'' \<and> s ! Suc p = CHR ''/''))"
proof -
  from assms obtain p c1 where lb: "(p, c1) \<in> set (rmatch left_boundary s (b, None))"
    and r1: "(e, cap) \<in> set (rmatch (Cat no_double_slash (Cat no_double_star
      (Cat no_comment_opener (Cat (Opt (Group forward_token)) (Cat right_boundary no_comma))))) s (p, c1))"
    unfolding forward_slash_pattern_unfold in_rmatch_Cat [of _ left_boundary] by blast
  from left_boundary_mem [OF lb] have c1: "c1 = None" by simp
  from r1 obtain x2 where nds: "x2 \<in> set (rmatch no_double_slash s (p, c1))"
    and r2: "(e, cap) \<in> set (rmatch (Cat no_double_star
      (Cat no_comment_opener (Cat (Opt (Group forward_token)) (Cat right_boundary no_comma)))) s x2)"
    unfolding in_rmatch_Cat [of _ no_double_slash] by blast
  from lookahead_state(1) [OF nds] have x2: "x2 = (p, c1)" .
  from r2 obtain x3 where a3: "x3 \<in> set (rmatch no_double_star s (p, c1))"
    and r3: "(e, cap) \<in> set (rmatch
      (Cat no_comment_opener (Cat (Opt (Group forward_token)) (Cat right_boundary no_comma))) s x3)"
    unfolding x2 in_rmatch_Cat [of _ no_double_star] by blast
  from lookahead_state(2) [OF a3] have x3: "x3 = (p, c1)" .
  from r3 obtain x4 where a4: "x4 \<in> set (rmatch no_comment_opener s (p, c1))"
    and r4: "(e, cap) \<in> set (rmatch (Cat (Opt (Group forward_token)) (Cat right_boundary no_comma)) s x4)"
    unfolding x3 in_rmatch_Cat [of _ no_comment_opener] by blast
  from lookahead_state(3) [OF a4] have x4: "x4 = (p, c1)" .
  from r4 obtain q d where g: "(q, d) \<in> set (rmatch (Opt (Group forward_token)) s (p, c1))"
    and r5: "(e, cap) \<in> set (rmatch (Cat right_boundary no_comma) s (q, d))"
    unfolding x4 in_rmatch_Cat [of _ "Opt (Group forward_token)"] by blast
  from r5 obtain x6 where a6: "x6 \<in> set (rmatch right_boundary s (q, d))"
    and r6: "(e, cap) \<in> set (rmatch no_comma s x6)"
    unfolding in_rmatch_Cat [of _ right_boundary] by blast
  from lookahead_state(4) [OF a6] have x6: "x6 = (q, d)" .
  from lookahead_state(5) [OF r6 [unfolded x6]] have fin: "e = q" "cap = d" by simp_all
  from g consider "(q, d) = (p, c1)" | "(q, d) \<in> set (rmatch (Group forward_token) s (p, c1))"
    unfolding in_rmatch_Opt by blast
  then show ?thesis
  proof cases
    case 1
    with fin c1 show ?thesis by simp
  next
    case 2
    then obtain d' where d: "d = Some (p, q)" and tok: "(q, d') \<in> set (rmatch forward_token s (p, c1))"
      unfolding in_rmatch_Group by blast
    from forward_token_mem [OF tok] no_double_slash_mem [OF nds] fin d
    show ?thesis by blast
  qed
qed

lemma slice_startswith_two:
  assumes "startswith (slice s p e) [x, y]" "e \<le> length s"
  shows "Suc p < length s \<and> s ! p = x \<and> s ! Suc p = y"
proof -
  from assms(1) have "\<exists>v. slice s p e = x # y # v"
    by auto
  then obtain v where v: "slice s p e = x # y # v"
    by blast
  then have "length (slice s p e) \<ge> 2" by simp
  with assms(2) have len: "Suc p < e" by (simp add: slice_def)
  from slice_nth [of e s p 0] assms(2) len v have "s ! p = x" by simp
  moreover from slice_nth [of e s p 1] assms(2) len v have "s ! Suc p = y" by simp
  ultimately show ?thesis using len assms(2) by simp
qed

lemma in_findall_group:
  assumes "groups r = 1" "u \<in> set (findall r s)"
  shows "\<exists>b e c. (b, e, c) \<in> set (scan r s 0 False)
     \<and> u = (case c of None \<Rightarrow> [] | Some (x, y) \<Rightarrow> slice s x y)"
proof -
  from assms have "u \<in> (\<lambda>(b, e, c). case c of None \<Rightarrow> [] | Some (x, y) \<Rightarrow> slice s x y)
      ` set (scan r s 0 False)"
    by (simp add: findall_def)
  then obtain t where t: "t \<in> set (scan r s 0 False)"
    "u = (case t of (b, e, c) \<Rightarrow> case c of None \<Rightarrow> [] | Some (x, y) \<Rightarrow> slice s x y)"
    by blast
  obtain b e c where "t = (b, e, c)" by (cases t) auto
  with t show ?thesis by auto
qed

lemma findall_partial_no_double_slash:
  assumes "u \<in> set (findall partial_url_pattern s)"
  shows "\<not> startswith u ''//''"
proof
  assume sw: "startswith u ''//''"
  from in_findall_group [OF groups_partial_url_pattern assms]
  obtain b e c where sc: "(b, e, c) \<in> set (scan partial_url_pattern s 0 False)"
    and u: "u = (case c of None \<Rightarrow> [] | Some (x, y) \<Rightarrow> slice s x y)"
    by blast
  from scan_mem [OF sc] show False
  proof (rule partial_url_pattern_sound)
    fix p
    assume p: "c = Some (p, e)" "e \<le> length s"
      "\<not> (Suc p < length s \<and> s ! p = CHR ''/'' \<and> s ! Suc p = CHR ''/'')"
    from sw have "startswith (slice s p e) ''//''"
      unfolding u p(1) by simp
    from slice_startswith_two [OF this p(2)] p(3) show False by blast
  qed
qed

lemma findall_forward_no_double_slash:
  assumes "u \<in> set (findall forward_slash_pattern s)"
  shows "\<not> startswith u ''//''"
proof
  assume sw: "startswith u ''//''"
  from in_findall_group [OF groups_forward_slash_pattern assms]
  obtain b e c where sc: "(b, e, c) \<in> set (scan forward_slash_pattern s 0 False)"
    and u: "u = (case c of None \<Rightarrow> [] | Some (x, y) \<Rightarrow> slice s x y)"
    by blast
  from sw u have "c \<noteq> None"
    by (cases c) simp_all
  with forward_slash_pattern_sound [OF scan_mem [OF sc]] obtain p where
    p: "c = Some (p, e)" "e \<le> length s"
      "\<not> (Suc p < length s \<and> s ! p = CHR ''/'' \<and> s ! Suc p = CHR ''/'')"
    by blast
  from sw have "startswith (slice s p e) ''//''"
    unfolding u p(1) by simp
  from slice_startswith_two [OF this p(2)] p(3) show False by blast
qed


section \<open>The claim about the normalized paths\<close>

lemma cleaned_shape:
  assumes "\<not> startswith u ''//''"
  shows "\<exists>w. clean_url (rstrip '','' u) = CHR ''/'' # w \<and> \<not> startswith w ''/''"
proof -
  obtain t where t: "u = rstrip '','' u @ t"
    using rstrip_prefix by blast
  have "\<not> startswith (rstrip '','' u) ''//''"
  proof
    assume "startswith (rstrip '','' u) ''//''"
    then obtain v where "rstrip '','' u = ''//'' @ v" by auto
    with t have "u = ''//'' @ v @ t" by simp
    with assms show False by simp
  qed
  with clean_url_shape [of "rstrip '','' u"] show ?thesis by blast
qed

lemma findall_partial_shape:
  assumes "u \<in> set (findall partial_url_pattern s)"
  shows "startswith u ''./'' \<or> startswith u ''../'' \<or> startswith u ''/''"
proof -
  from in_findall_group [OF groups_partial_url_pattern assms]
  obtain b e c where sc: "(b, e, c) \<in> set (scan partial_url_pattern s 0 False)"
    and u: "u = (case c of None \<Rightarrow> [] | Some (x, y) \<Rightarrow> slice s x y)"
    by blast
  from scan_mem [OF sc] show ?thesis
  proof (rule partial_url_pattern_sound)
    fix p
    assume p: "c = Some (p, e)"
      "startswith (slice s p e) ''./'' \<or> startswith (slice s p e) ''../''
          \<or> startswith (slice s p e) ''/''"
    from p(2) show ?thesis
      unfolding u p(1) by simp
  qed
qed

lemma slice_head:
  assumes "p < e" "e \<le> length s"
  shows "slice s p e = s ! p # slice s (Suc p) e"
proof -
  from assms have "drop p s = s ! p # drop (Suc p) s"
    by (simp add: Cons_nth_drop_Suc)
  moreover from assms obtain k where "e - p = Suc k" "e - Suc p = k"
    by (cases "e - p") auto
  ultimately show ?thesis
    by (simp add: slice_def)
qed

lemma findall_forward_shape:
  assumes "u \<in> set (findall forward_slash_pattern s)"
  shows "u = [] \<or> startswith u ''/''"
proof -
  from in_findall_group [OF groups_forward_slash_pattern assms]
  obtain b e c where sc: "(b, e, c) \<in> set (scan forward_slash_pattern s 0 False)"
    and u: "u = (case c of None \<Rightarrow> [] | Some (x, y) \<Rightarrow> slice s x y)"
    by blast
  show ?thesis
  proof (cases c)
    case None
    with u show ?thesis by simp
  next
    case (Some a)
    with forward_slash_pattern_sound [OF scan_mem [OF sc]] obtain p where
      p: "c = Some (p, e)" "p < e" "e \<le> length s" "s ! p = CHR ''/''"
      by blast
    from slice_head [OF p(2,3)] p(4) have "slice s p e = CHR ''/'' # slice s (Suc p) e"
      by simp
    then show ?thesis
      unfolding u p(1) by simp
  qed
qed

lemma rstrip_startswith:
  assumes "startswith u p" "p \<noteq> []" "last p \<notin> set cs"
  shows "startswith (rstrip cs u) p"
proof -
  from assms(1) have "u = p @ drop (length p) u"
    unfolding startswith_def by (metis append_take_drop_id)
  then obtain r where "u = p @ r" ..
  with rstrip_append [OF assms(2,3), of r] show ?thesis
    by (simp add: startswith_def)
qed

lemma cleaned_relative:
  assumes "startswith u ''./'' \<or> startswith u ''../''"
  shows "\<exists>w. clean_url (rstrip '','' u) = CHR ''/'' # w \<and> \<not> startswith w ''.''
     \<and> \<not> startswith w ''/''"
proof -
  from assms have "startswith (rstrip '','' u) ''./'' \<or> startswith (rstrip '','' u) ''../''"
  proof
    assume "startswith u ''./''"
    from rstrip_startswith [OF this, of "'',''"] show ?thesis by simp
  next
    assume "startswith u ''../''"
    from rstrip_startswith [OF this, of "'',''"] show ?thesis by simp
  qed
  from clean_url_relative [OF this] stripped_no_prefix [of "rstrip '','' u"]
  show ?thesis by blast
qed

lemma cleaned_absolute:
  assumes "startswith u ''/''"
  shows "clean_url (rstrip '','' u) = rstrip '','' u"
proof -
  from rstrip_startswith [OF assms, of "'',''"] obtain w where "rstrip '','' u = CHR ''/'' # w"
    by auto
  then show ?thesis
    by (simp add: clean_url_slash)
qed

lemma cleaned_empty: "clean_url (rstrip '','' []) = ''/''"
  by (simp add: rstrip_def clean_url_other)

lemma tagged_complete:
  assumes "u \<in> set (findall pat text)"
  shows "\<exists>m \<in> set (tagged pat flag text repo fp). fst m = rstrip '','' u \<and> fst (snd m) = flag"
proof -
  from assms obtain i where "i < length (findall pat text)" "findall pat text ! i = u"
    by (auto simp add: in_set_conv_nth)
  then have "(i, u) \<in> set (enumerate 0 (findall pat text))"
    by (simp add: in_set_enumerate_eq)
  then have "(rstrip '','' u, flag, repo, fp, i + 1) \<in> set (tagged pat flag text repo fp)"
    unfolding tagged_def by force
  then show ?thesis
    by (intro bexI [of _ "(rstrip '','' u, flag, repo, fp, i + 1)"]) simp_all
qed

lemma clean_urls_complete:
  assumes "m \<in> set ms"
  shows "\<exists>m' \<in> set (clean_urls ms). fst m' = clean_url (fst m) \<and> snd m' = snd m"
proof -
  from assms have "(clean_url (fst m), snd m) \<in> set (clean_urls ms)"
    unfolding clean_urls_def by (force simp add: case_prod_beta)
  then show ?thesis
    by (intro bexI [of _ "(clean_url (fst m), snd m)"]) simp_all
qed

lemma extract_urls_partial_complete:
  assumes "u \<in> set (findall partial_url_pattern text)"
  shows "\<exists>m \<in> set (extract_urls text repo fp).
     fst m = clean_url (rstrip '','' u) \<and> fst (snd m) = PARTIAL_URL"
proof -
  from tagged_complete [OF assms, of PARTIAL_URL repo fp] obtain m where
    m: "m \<in> set (tagged partial_url_pattern PARTIAL_URL text repo fp)"
      "fst m = rstrip '','' u" "fst (snd m) = PARTIAL_URL"
    by blast
  from clean_urls_complete [OF m(1)] obtain m' where
    "m' \<in> set (clean_urls (tagged partial_url_pattern PARTIAL_URL text repo fp))"
    "fst m' = clean_url (fst m)" "snd m' = snd m"
    by blast
  with m(2,3) have "m' \<in> set (extract_urls text repo fp)"
    "fst m' = clean_url (rstrip '','' u) \<and> fst (snd m') = PARTIAL_URL"
    by (simp_all add: extract_urls_def)
  then show ?thesis by blast
qed

lemma extract_urls_forward_complete:
  assumes "u \<in> set (findall forward_slash_pattern text)"
  shows "\<exists>m \<in> set (extract_urls text repo fp).
     fst m = clean_url (rstrip '','' u) \<and> fst (snd m) = FORWARD_SLASH"
proof -
  from tagged_complete [OF assms, of FORWARD_SLASH repo fp] obtain m where
    m: "m \<in> set (tagged forward_slash_pattern FORWARD_SLASH text repo fp)"
      "fst m = rstrip '','' u" "fst (snd m) = FORWARD_SLASH"
    by blast
  from clean_urls_complete [OF m(1)] obtain m' where
    "m' \<in> set (clean_urls (tagged forward_slash_pattern FORWARD_SLASH text repo fp))"
    "fst m' = clean_url (fst m)" "snd m' = snd m"
    by blast
  with m(2,3) have "m' \<in> set (extract_urls text repo fp)"
    "fst m' = clean_url (rstrip '','' u) \<and> fst (snd m') = FORWARD_SLASH"
    by (simp_all add: extract_urls_def)
  then show ?thesis by blast
qed

lemma extract_urls_path_sound:
  assumes "m \<in> set (extract_urls text repo fp)"
    and "fst (snd m) = PARTIAL_URL \<or> fst (snd m) = FORWARD_SLASH"
  shows "\<exists>u \<in> set (findall (if fst (snd m) = PARTIAL_URL then partial_url_pattern
            else forward_slash_pattern) text). fst m = clean_url (rstrip '','' u)"
proof -
  have no_full: "m \<notin> set (tagged url_pattern FULL_URL text repo fp)"
    using in_tagged [of m url_pattern FULL_URL] assms(2) by auto
  with assms(1) consider
      "m \<in> set (clean_urls (tagged partial_url_pattern PARTIAL_URL text repo fp))"
    | "m \<in> set (clean_urls (tagged forward_slash_pattern FORWARD_SLASH text repo fp))"
    by (auto simp add: extract_urls_def)
  then show ?thesis
  proof cases
    case 1
    from in_clean_urls [OF 1] obtain m' where
      m': "m' \<in> set (tagged partial_url_pattern PARTIAL_URL text repo fp)"
        "fst m = clean_url (fst m')" "snd m = snd m'"
      by blast
    from in_tagged [OF m'(1)] obtain u where "u \<in> set (findall partial_url_pattern text)"
      "fst m' = rstrip '','' u" "fst (snd m') = PARTIAL_URL"
      by blast
    with m'(2,3) show ?thesis by auto
  next
    case 2
    from in_clean_urls [OF 2] obtain m' where
      m': "m' \<in> set (tagged forward_slash_pattern FORWARD_SLASH text repo fp)"
        "fst m = clean_url (fst m')" "snd m = snd m'"
      by blast
    from in_tagged [OF m'(1)] obtain u where "u \<in> set (findall forward_slash_pattern text)"
      "fst m' = rstrip '','' u" "fst (snd m') = FORWARD_SLASH"
      by blast
    with m'(2,3) show ?thesis by auto
  qed
qed

text \<open>
  Claim C3, as amended. Every string that \<open>extract_urls\<close> returns in the PARTIAL_URL or
  FORWARD_SLASH category is the normalization of a raw match of the pattern of its category,
  taken after \<open>rstrip(',')\<close>, and every raw match is returned in this way. Such a string starts
  with \<open>/\<close> and has no second \<open>/\<close> right after it. A raw match is empty or starts with \<open>./\<close>,
  \<open>../\<close> or \<open>/\<close>. When it starts with \<open>./\<close> or \<open>../\<close>, the character after the first \<open>/\<close> of the
  normalized string is neither \<open>.\<close> nor \<open>/\<close>. When it starts with \<open>/\<close>, the normalization leaves
  it as it is, so that a dot can follow the \<open>/\<close>: the raw match \<open>/.x\<close> stays \<open>/.x\<close>. The empty
  raw match becomes \<open>/\<close>.
\<close>

theorem C3_normalized_paths:
  "(\<forall>m \<in> set (extract_urls text repo file_path).
      fst (snd m) = PARTIAL_URL \<or> fst (snd m) = FORWARD_SLASH \<longrightarrow>
        (\<exists>w. fst m = ''/'' @ w \<and> \<not> startswith w ''/'')
        \<and> (\<exists>u \<in> set (findall (if fst (snd m) = PARTIAL_URL then partial_url_pattern
                 else forward_slash_pattern) text).
              fst m = clean_url (rstrip '','' u)))
   \<and> (\<forall>u \<in> set (findall partial_url_pattern text).
        \<exists>m \<in> set (extract_urls text repo file_path).
          fst m = clean_url (rstrip '','' u) \<and> fst (snd m) = PARTIAL_URL)
   \<and> (\<forall>u \<in> set (findall forward_slash_pattern text).
        \<exists>m \<in> set (extract_urls text repo file_path).
          fst m = clean_url (rstrip '','' u) \<and> fst (snd m) = FORWARD_SLASH)
   \<and> (\<forall>u \<in> set (findall partial_url_pattern text) \<union> set (findall forward_slash_pattern text).
        (startswith u ''./'' \<or> startswith u ''../'' \<or> startswith u ''/'' \<or> u = [])
        \<and> (\<exists>w. clean_url (rstrip '','' u) = ''/'' @ w \<and> \<not> startswith w ''/'')
        \<and> (startswith u ''./'' \<or> startswith u ''../'' \<longrightarrow>
             (\<exists>w. clean_url (rstrip '','' u) = ''/'' @ w
                \<and> \<not> startswith w ''.'' \<and> \<not> startswith w ''/''))
        \<and> (startswith u ''/'' \<longrightarrow> clean_url (rstrip '','' u) = rstrip '','' u)
        \<and> (u = [] \<longrightarrow> clean_url (rstrip '','' u) = ''/''))"
proof (intro conjI ballI impI)
  fix u
  assume "u \<in> set (findall partial_url_pattern text)"
  then show "\<exists>m \<in> set (extract_urls text repo file_path).
      fst m = clean_url (rstrip '','' u) \<and> fst (snd m) = PARTIAL_URL"
    by (rule extract_urls_partial_complete)
next
  fix u
  assume "u \<in> set (findall forward_slash_pattern text)"
  then show "\<exists>m \<in> set (extract_urls text repo file_path).
      fst m = clean_url (rstrip '','' u) \<and> fst (snd m) = FORWARD_SLASH"
    by (rule extract_urls_forward_complete)
next
  fix m
  assume m: "m \<in> set (extract_urls text repo file_path)"
    and flag: "fst (snd m) = PARTIAL_URL \<or> fst (snd m) = FORWARD_SLASH"
  from extract_urls_path_sound [OF m flag]
  show raw: "\<exists>u \<in> set (findall (if fst (snd m) = PARTIAL_URL then partial_url_pattern
       else forward_slash_pattern) text). fst m = clean_url (rstrip '','' u)" .
  then obtain u where u: "fst m = clean_url (rstrip '','' u)"
    "u \<in> set (findall partial_url_pattern text) \<union> set (findall forward_slash_pattern text)"
    by (auto split: if_splits)
  from u(2) have "\<not> startswith u ''//''"
    using findall_partial_no_double_slash [of u] findall_forward_no_double_slash [of u]
    by blast
  from cleaned_shape [OF this] u(1)
  show "\<exists>w. fst m = ''/'' @ w \<and> \<not> startswith w ''/''"
    by simp
next
  fix u
  assume u: "u \<in> set (findall partial_url_pattern text) \<union> set (findall forward_slash_pattern text)"
  from u show "startswith u ''./'' \<or> startswith u ''../'' \<or> startswith u ''/'' \<or> u = []"
    using findall_partial_shape [of u] findall_forward_shape [of u] by blast
  from u have "\<not> startswith u ''//''"
    using findall_partial_no_double_slash [of u] findall_forward_no_double_slash [of u]
    by blast
  from cleaned_shape [OF this]
  show "\<exists>w. clean_url (rstrip '','' u) = ''/'' @ w \<and> \<not> startswith w ''/''"
    by simp
next
  fix u
  assume "startswith u ''./'' \<or> startswith u ''../''"
  from cleaned_relative [OF this]
  show "\<exists>w. clean_url (rstrip '','' u) = ''/'' @ w \<and> \<not> startswith w ''.'' \<and> \<not> startswith w ''/''"
    by simp
next
  fix u
  assume "startswith u ''/''"
  then show "clean_url (rstrip '','' u) = rstrip '','' u"
    by (rule cleaned_absolute)
next
  fix u :: string
  assume "u = []"
  then show "clean_url (rstrip '','' u) = ''/''"
    by (simp only: cleaned_empty)
qed

theorem C3_witness:
  "findall partial_url_pattern ''../.x/y /.z '' = [''../.x/y'', ''/.z'']
   \<and> findall forward_slash_pattern ''../.x/y /.z '' = [''/.z'', []]
   \<and> extract_urls ''../.x/y /.z '' ''d'' ''d/f.txt''
     = [(''/x/y'', PARTIAL_URL, ''d'', ''d/f.txt'', 1), (''/.z'', PARTIAL_URL, ''d'', ''d/f.txt'', 2),
        (''/.z'', FORWARD_SLASH, ''d'', ''d/f.txt'', 1), (''/'', FORWARD_SLASH, ''d'', ''d/f.txt'', 2)]
   \<and> startswith ''../.x/y'' ''../'' \<and> clean_url (rstrip '','' ''../.x/y'') = ''/'' @ ''x/y''
   \<and> \<not> startswith ''x/y'' ''.'' \<and> \<not> startswith ''x/y'' ''/''
   \<and> startswith ''/.z'' ''/'' \<and> clean_url (rstrip '','' ''/.z'') = rstrip '','' ''/.z''
   \<and> clean_url (rstrip '','' []) = ''/''"
proof -
  have p: "findall partial_url_pattern ''../.x/y /.z '' = [''../.x/y'', ''/.z'']"
    by code_simp
  have f: "findall forward_slash_pattern ''../.x/y /.z '' = [''/.z'', []]"
    by code_simp
  have e: "extract_urls ''../.x/y /.z '' ''d'' ''d/f.txt''
     = [(''/x/y'', PARTIAL_URL, ''d'', ''d/f.txt'', 1), (''/.z'', PARTIAL_URL, ''d'', ''d/f.txt'', 2),
        (''/.z'', FORWARD_SLASH, ''d'', ''d/f.txt'', 1), (''/'', FORWARD_SLASH, ''d'', ''d/f.txt'', 2)]"
    by code_simp
  have c: "clean_url (rstrip '','' ''../.x/y'') = ''/'' @ ''x/y''"
    by code_simp
  have "\<forall>u \<in> set [''../.x/y'', ''/.z''] \<union> set [''/.z'', []].
      (startswith u ''/'' \<longrightarrow> clean_url (rstrip '','' u) = rstrip '','' u)
      \<and> (u = [] \<longrightarrow> clean_url (rstrip '','' u) = ''/'')"
    using C3_normalized_paths [of "''../.x/y /.z ''" "''d''" "''d/f.txt''"]
    unfolding p f by blast
  then have "clean_url (rstrip '','' ''/.z'') = rstrip '','' ''/.z''"
    "clean_url (rstrip '','' []) = ''/''"
    by simp_all
  with p f e c show ?thesis
    by simp
qed

text \<open>
  Claim C3 as stated fails: the text \<open>/.x\<close> is a raw match of both path patterns, it starts
  with neither \<open>./\<close> nor \<open>../\<close>, so the loop of \<open>clean_urls\<close> leaves it alone, and the string
  returned in both categories has a dot right after its \<open>/\<close>.
\<close>

theorem C3_counterexample:
  "findall partial_url_pattern ''/.x'' = [''/.x'']
   \<and> findall forward_slash_pattern ''/.x'' = [''/.x'']
   \<and> extract_urls ''/.x'' ''d'' ''d/f.txt''
     = [(''/.x'', PARTIAL_URL, ''d'', ''d/f.txt'', 1), (''/.x'', FORWARD_SLASH, ''d'', ''d/f.txt'', 1)]
   \<and> ''/.x'' = ''/'' @ ''.x'' \<and> startswith ''.x'' ''.''"
  by code_simp


section \<open>The first match of the PARTIAL_URL pattern\<close>

text \<open>The first way to match, for the parts of the path patterns.\<close>

lemma rmatch_lit_list:
  "rmatch (lit w) s (i, c) = (if take (length w) (drop i s) = w then [(i + length w, c)] else [])"
proof (induction w arbitrary: i)
  case Nil
  show ?case by (simp add: lit_def)
next
  case (Cons x w)
  have hd: "take (Suc (length w)) (drop i s) = x # w \<longleftrightarrow>
      i < length s \<and> s ! i = x \<and> take (length w) (drop (Suc i) s) = w"
  proof (cases "i < length s")
    case True
    then have "drop i s = s ! i # drop (Suc i) s"
      by (simp add: Cons_nth_drop_Suc)
    then show ?thesis using True by simp
  next
    case False
    then show ?thesis by simp
  qed
  show ?case
  proof (cases w)
    case Nil
    with hd show ?thesis
      by (simp add: lit_def chr_def)
  next
    case (Cons y v)
    then have "lit (x # w) = Cat (chr x) (lit w)"
      by (simp add: lit_def)
    then show ?thesis
      using hd Cons.IH [of "Suc i"] by (simp add: chr_def)
  qed
qed

lemma star_atom_first:
  assumes "k \<le> q" "q \<le> length s" "\<forall>m. k \<le> m \<and> m < q \<longrightarrow> P (s ! m)"
    "q = length s \<or> \<not> P (s ! q)"
  shows "\<exists>rest. rmatch (Star (Atom P)) s (k, c) = (q, c) # rest"
  using assms(1,3)
proof (induction "q - k" arbitrary: k)
  case 0
  then have "k = q" by simp
  with assms(2,4) have "rmatch (Atom P) s (k, c) = []"
    by auto
  then show ?case
    using \<open>k = q\<close> by (subst rmatch.simps(7)) simp
next
  case (Suc n)
  then have lt: "k < q" by simp
  with Suc.prems assms(2) have "rmatch (Atom P) s (k, c) = [(Suc k, c)]"
    by simp
  moreover have "\<exists>rest. rmatch (Star (Atom P)) s (Suc k, c) = (q, c) # rest"
    using Suc.hyps(2) Suc.prems lt by (intro Suc.hyps(1)) auto
  ultimately show ?case
    using lt assms(2) by (subst rmatch.simps(7)) auto
qed

lemma rmatch_Cat_first:
  assumes "rmatch a s (i, c) = x # xs" "rmatch b s x = y # ys"
  shows "\<exists>rest. rmatch (Cat a b) s (i, c) = y # rest"
  using assms by simp

lemma rmatch_Cat_single:
  assumes "rmatch a s (i, c) = [x]"
  shows "rmatch (Cat a b) s (i, c) = rmatch b s x"
  using assms by simp

lemma rmatch_Cat_none:
  assumes "rmatch a s (i, c) = []"
  shows "rmatch (Cat a b) s (i, c) = []"
  using assms by simp

text \<open>The classes of the boundaries and of the token do not meet.\<close>

lemma cls_path_not_boundary:
  "cls_path x \<Longrightarrow> \<not> re_space x \<and> \<not> cls_quote x"
  by (auto simp add: cls_path_def re_word_def re_space_def cls_quote_def in_range_def)

lemma partial_token_first:
  assumes "p < q" "q \<le> length s"
    and start: "startswith (slice s p q) ''./'' \<or> startswith (slice s p q) ''../''"
    and chars: "\<forall>m. p \<le> m \<and> m < q \<longrightarrow> cls_path (s ! m)"
    and right: "q = length s \<or> re_space (s ! q) \<or> cls_quote (s ! q)"
  shows "\<exists>rest. rmatch partial_token s (p, c) = (q, c) # rest"
proof -
  from right cls_path_not_boundary have stop: "q = length s \<or> \<not> cls_path (s ! q)"
    by blast
  have branch: "\<exists>rest. rmatch (Cat (lit w) (Star (Atom cls_path))) s (p, c) = (q, c) # rest"
    if w: "startswith (slice s p q) w" for w
  proof -
    from w obtain v where v: "slice s p q = w @ v"
      by (metis append_take_drop_id startswith_def)
    then have "length w \<le> length (slice s p q)" by simp
    with assms(1,2) have len: "p + length w \<le> q" by (simp add: slice_def)
    have "slice s p q = slice s p (p + length w) @ slice s (p + length w) q"
      using len by (intro slice_split) simp_all
    moreover have "length (slice s p (p + length w)) = length w"
      using len assms(2) by (simp add: slice_def)
    ultimately have "slice s p (p + length w) = w"
      using v by (metis append_eq_append_conv)
    then have "take (length w) (drop p s) = w"
      by (simp add: slice_def)
    then have one: "rmatch (lit w) s (p, c) = [(p + length w, c)]"
      by (simp add: rmatch_lit_list)
    from star_atom_first [of "p + length w" q s cls_path c] len assms(2) chars stop
    obtain rest where "rmatch (Star (Atom cls_path)) s (p + length w, c) = (q, c) # rest"
      by auto
    with one show ?thesis by simp
  qed
  have chr_lit: "chr CHR ''/'' = lit ''/''"
    by (simp add: lit_def)
  have unfold: "partial_token = Alt (Cat (lit ''./'') (Star (Atom cls_path)))
      (Alt (Cat (lit ''../'') (Star (Atom cls_path))) (Cat (lit ''/'') (Star (Atom cls_path))))"
    by (simp add: partial_token_def chr_lit)
  from start show ?thesis
  proof
    assume "startswith (slice s p q) ''./''"
    from branch [OF this] obtain rest where
      "rmatch (Cat (lit ''./'') (Star (Atom cls_path))) s (p, c) = (q, c) # rest"
      by blast
    then have "rmatch partial_token s (p, c) = ((q, c) # rest)
        @ rmatch (Alt (Cat (lit ''../'') (Star (Atom cls_path))) (Cat (lit ''/'') (Star (Atom cls_path)))) s (p, c)"
      unfolding unfold by (simp only: rmatch.simps(6))
    then show ?thesis by simp
  next
    assume a: "startswith (slice s p q) ''../''"
    then have "\<not> startswith (slice s p q) ''./''"
      by auto
    moreover have "startswith (slice s p q) ''./''"
      if "take (length ''./'') (drop p s) = ''./''"
    proof -
      from a assms(1,2) have "2 \<le> q - p"
        by (auto simp add: slice_def dest!: arg_cong [where f = length])
      then have "take (length ''./'') (slice s p q) = take (length ''./'') (drop p s)"
        by (simp add: slice_def min_def)
      with that show ?thesis
        unfolding startswith_def by simp
    qed
    ultimately have "rmatch (lit ''./'') s (p, c) = []"
      by (auto simp add: rmatch_lit_list)
    then have none: "rmatch (Cat (lit ''./'') (Star (Atom cls_path))) s (p, c) = []"
      by (rule rmatch_Cat_none)
    from branch [OF a] obtain rest where
      "rmatch (Cat (lit ''../'') (Star (Atom cls_path))) s (p, c) = (q, c) # rest"
      by blast
    with none have "rmatch partial_token s (p, c) = [] @ ((q, c) # rest)
        @ rmatch (Cat (lit ''/'') (Star (Atom cls_path))) s (p, c)"
      unfolding unfold by (simp only: rmatch.simps(6))
    then show ?thesis by simp
  qed
qed

text \<open>The rest of the line that starts at a position: what \<open>.*\<close> can pass.\<close>

definition line_from :: "string \<Rightarrow> nat \<Rightarrow> string" where
  "line_from s p = takeWhile (\<lambda>c. c \<noteq> CHR 0x0A) (drop p s)"

lemma line_prefix:
  assumes "p \<le> j" "j \<le> length s" "\<forall>m. p \<le> m \<and> m < j \<longrightarrow> s ! m \<noteq> CHR 0x0A"
  shows "\<exists>t. line_from s p = slice s p j @ t"
proof -
  have "drop p s = slice s p j @ drop j s"
  proof -
    have "drop p s = take (j - p) (drop p s) @ drop (j - p) (drop p s)"
      by (rule append_take_drop_id [symmetric])
    moreover from assms(1) have "drop (j - p) (drop p s) = drop j s"
      by simp
    ultimately show ?thesis by (simp only: slice_def)
  qed
  moreover have "\<forall>x \<in> set (slice s p j). x \<noteq> CHR 0x0A"
  proof
    fix x
    assume "x \<in> set (slice s p j)"
    from set_slice [OF assms(2) this] obtain m where "p \<le> m" "m < j" "x = s ! m"
      by blast
    with assms(3) show "x \<noteq> CHR 0x0A" by simp
  qed
  ultimately have "line_from s p = slice s p j @ takeWhile (\<lambda>c. c \<noteq> CHR 0x0A) (drop j s)"
    by (simp add: line_from_def takeWhile_append2)
  then show ?thesis by blast
qed

lemma dots_lit_sublist:
  assumes "x \<in> set (rmatch (Cat (Star (Atom re_dot)) (lit w)) s (p, c))"
    and w: "w \<noteq> []" "CHR 0x0A \<notin> set w"
  shows "sublist w (line_from s p)"
proof -
  obtain j d where x: "x = (j, d)" by (cases x) auto
  from assms(1) obtain k e where st: "(k, e) \<in> set (rmatch (Star (Atom re_dot)) s (p, c))"
    and l: "(j, d) \<in> set (rmatch (lit w) s (k, e))"
    unfolding x in_rmatch_Cat by blast
  note ls = in_rmatch_lit_slice [OF l]
  from ls(4) w(1) have js: "j \<le> length s" by simp
  from star_atom_all [OF st] have pk: "p \<le> k"
    and dots: "\<forall>m. p \<le> m \<and> m < k \<longrightarrow> re_dot (s ! m)"
    by simp_all
  have all: "\<forall>m. p \<le> m \<and> m < j \<longrightarrow> s ! m \<noteq> CHR 0x0A"
  proof (intro allI impI)
    fix m assume m: "p \<le> m \<and> m < j"
    show "s ! m \<noteq> CHR 0x0A"
    proof (cases "m < k")
      case True
      with m dots show ?thesis by (simp add: re_dot_def)
    next
      case False
      with m ls(1) have "m - k < length w" by auto
      moreover from False m js have "slice s k j ! (m - k) = s ! m"
        using slice_nth [of j s k "m - k"] by simp
      ultimately have "s ! m \<in> set w"
        using ls(3) by (metis nth_mem)
      with w(2) show ?thesis by metis
    qed
  qed
  from pk ls(1) have pj: "p \<le> j" by simp
  from line_prefix [OF pj js all] obtain t where "line_from s p = slice s p j @ t"
    by blast
  moreover have "slice s p j = slice s p k @ slice s k j"
    using pk ls(1) by (intro slice_split) simp_all
  ultimately have "line_from s p = slice s p k @ w @ t"
    using ls(3) by simp
  then show ?thesis
    unfolding sublist_def by blast
qed

lemma sublist_dots_lit:
  assumes "sublist w (line_from s p)" and w: "w \<noteq> []"
  shows "rmatch (Cat (Star (Atom re_dot)) (lit w)) s (p, c) \<noteq> []"
proof -
  from assms(1) obtain a b where ab: "line_from s p = a @ w @ b"
    unfolding sublist_def by blast
  define r where "r = dropWhile (\<lambda>c. c \<noteq> CHR 0x0A) (drop p s)"
  have d: "drop p s = a @ w @ b @ r"
    using ab takeWhile_dropWhile_id [of "\<lambda>c. c \<noteq> CHR 0x0A" "drop p s"]
    unfolding line_from_def r_def by simp
  then have "length (drop p s) = length a + length w + length b + length r"
    by simp
  with w have len: "p + length a + length w \<le> length s" and ps: "p < length s"
    by (cases w; simp)+
  have dots: "\<forall>m. p \<le> m \<and> m < p + length a \<longrightarrow> re_dot (s ! m)"
  proof (intro allI impI)
    fix m assume m: "p \<le> m \<and> m < p + length a"
    then have "m - p < length a" by auto
    moreover from m len have "s ! m = drop p s ! (m - p)" by simp
    ultimately have "s ! m = a ! (m - p)"
      unfolding d by (simp add: nth_append)
    with \<open>m - p < length a\<close> have "s ! m \<in> set a" by simp
    then have "s ! m \<in> set (takeWhile (\<lambda>c. c \<noteq> CHR 0x0A) (drop p s))"
      using ab unfolding line_from_def by simp
    then show "re_dot (s ! m)"
      unfolding re_dot_def by (rule set_takeWhileD [THEN conjunct2])
  qed
  have "(p + length a, c) \<in> set (rmatch (Star (Atom re_dot)) s (p, c))"
    using len dots by (intro star_atom_reach) simp_all
  moreover have "take (length w) (drop (p + length a) s) = w"
  proof -
    have "drop (p + length a) s = drop (length a) (drop p s)"
      by (simp add: add.commute)
    then show ?thesis unfolding d by simp
  qed
  then have "(p + length a + length w, c) \<in> set (rmatch (lit w) s (p + length a, c))"
    by (simp only: in_rmatch_lit)
  ultimately have "(p + length a + length w, c) \<in> set (rmatch (Cat (Star (Atom re_dot)) (lit w)) s (p, c))"
    unfolding in_rmatch_Cat by blast
  then show ?thesis by (metis empty_iff list.set(1))
qed

lemma ahead_dots_lit:
  assumes "w \<noteq> []" "CHR 0x0A \<notin> set w"
  shows "rmatch (Cat (Star (Atom re_dot)) (lit w)) s (p, c) = [] \<longleftrightarrow> \<not> sublist w (line_from s p)"
proof
  assume "rmatch (Cat (Star (Atom re_dot)) (lit w)) s (p, c) = []"
  with sublist_dots_lit [OF _ assms(1), of s p c] show "\<not> sublist w (line_from s p)"
    by blast
next
  assume n: "\<not> sublist w (line_from s p)"
  show "rmatch (Cat (Star (Atom re_dot)) (lit w)) s (p, c) = []"
  proof (rule ccontr)
    assume "rmatch (Cat (Star (Atom re_dot)) (lit w)) s (p, c) \<noteq> []"
    then obtain x xs where eq: "rmatch (Cat (Star (Atom re_dot)) (lit w)) s (p, c) = x # xs"
      by (meson neq_Nil_conv)
    have "x \<in> set (rmatch (Cat (Star (Atom re_dot)) (lit w)) s (p, c))"
      unfolding eq by (rule list.set_intros(1))
    from dots_lit_sublist [OF this assms] n show False by simp
  qed
qed

text \<open>The four negative lookaheads, in terms of the rest of the line.\<close>

lemma rmatch_no_double_slash:
  "rmatch no_double_slash s (p, c) = (if sublist ''//'' (line_from s p) then [] else [(p, c)])"
proof -
  have u: "no_double_slash = NotAhead (Cat (Star (Atom re_dot)) (lit ''//''))"
    by (simp add: no_double_slash_def)
  have e: "rmatch (Cat (Star (Atom re_dot)) (lit ''//'')) s (p, c) = [] \<longleftrightarrow>
      \<not> sublist ''//'' (line_from s p)"
    by (rule ahead_dots_lit) simp_all
  show ?thesis
    unfolding u rmatch.simps(11) e by simp
qed

lemma rmatch_no_double_star:
  "rmatch no_double_star s (p, c) = (if sublist ''**'' (line_from s p) then [] else [(p, c)])"
proof -
  have u: "no_double_star = NotAhead (Cat (Star (Atom re_dot)) (lit ''**''))"
    by (simp add: no_double_star_def lit_def)
  have e: "rmatch (Cat (Star (Atom re_dot)) (lit ''**'')) s (p, c) = [] \<longleftrightarrow>
      \<not> sublist ''**'' (line_from s p)"
    by (rule ahead_dots_lit) simp_all
  show ?thesis
    unfolding u rmatch.simps(11) e by simp
qed

lemma rmatch_no_comma:
  "rmatch no_comma s (p, c) = (if sublist '','' (line_from s p) then [] else [(p, c)])"
proof -
  have u: "no_comma = NotAhead (Cat (Star (Atom re_dot)) (lit '',''))"
    by (simp add: no_comma_def lit_def)
  have e: "rmatch (Cat (Star (Atom re_dot)) (lit '','')) s (p, c) = [] \<longleftrightarrow>
      \<not> sublist '','' (line_from s p)"
    by (rule ahead_dots_lit) simp_all
  show ?thesis
    unfolding u rmatch.simps(11) e by simp
qed

lemma comment_opener_lits:
  "x \<in> set (rmatch (Cat (chr CHR ''/'') (Cat (chr CHR ''*'') (Atom cls_dash_eq))) s (k, e)) \<longleftrightarrow>
     x \<in> set (rmatch (lit ''/*-'') s (k, e)) \<or> x \<in> set (rmatch (lit ''/*='') s (k, e))"
proof -
  have "lit ''/*-'' = Cat (chr CHR ''/'') (Cat (chr CHR ''*'') (chr CHR ''-''))"
    "lit ''/*='' = Cat (chr CHR ''/'') (Cat (chr CHR ''*'') (chr CHR ''=''))"
    by (simp_all add: lit_def)
  then show ?thesis
    by (cases x) (auto simp add: in_rmatch_Cat in_rmatch_chr in_rmatch_Atom cls_dash_eq_def
        simp del: rmatch.simps)
qed

lemma rmatch_no_comment_opener:
  "rmatch no_comment_opener s (p, c) =
     (if sublist ''/*-'' (line_from s p) \<or> sublist ''/*='' (line_from s p) then [] else [(p, c)])"
proof -
  let ?X = "Cat (chr CHR ''/'') (Cat (chr CHR ''*'') (Atom cls_dash_eq))"
  have u: "no_comment_opener = NotAhead (Cat (Star (Atom re_dot)) ?X)"
    by (simp add: no_comment_opener_def)
  have "x \<in> set (rmatch (Cat (Star (Atom re_dot)) ?X) s (p, c)) \<longleftrightarrow>
      x \<in> set (rmatch (Cat (Star (Atom re_dot)) (lit ''/*-'')) s (p, c))
      \<or> x \<in> set (rmatch (Cat (Star (Atom re_dot)) (lit ''/*='')) s (p, c))" for x
    unfolding in_rmatch_Cat [of _ "Star (Atom re_dot)"] comment_opener_lits by blast
  then have "set (rmatch (Cat (Star (Atom re_dot)) ?X) s (p, c)) =
      set (rmatch (Cat (Star (Atom re_dot)) (lit ''/*-'')) s (p, c))
      \<union> set (rmatch (Cat (Star (Atom re_dot)) (lit ''/*='')) s (p, c))"
    by blast
  then have "rmatch (Cat (Star (Atom re_dot)) ?X) s (p, c) = [] \<longleftrightarrow>
      rmatch (Cat (Star (Atom re_dot)) (lit ''/*-'')) s (p, c) = []
      \<and> rmatch (Cat (Star (Atom re_dot)) (lit ''/*='')) s (p, c) = []"
    by (simp only: set_empty [symmetric] Un_empty)
  moreover have "rmatch (Cat (Star (Atom re_dot)) (lit ''/*-'')) s (p, c) = [] \<longleftrightarrow>
      \<not> sublist ''/*-'' (line_from s p)"
    by (rule ahead_dots_lit) simp_all
  moreover have "rmatch (Cat (Star (Atom re_dot)) (lit ''/*='')) s (p, c) = [] \<longleftrightarrow>
      \<not> sublist ''/*='' (line_from s p)"
    by (rule ahead_dots_lit) simp_all
  ultimately have e: "rmatch (Cat (Star (Atom re_dot)) ?X) s (p, c) = [] \<longleftrightarrow>
      \<not> (sublist ''/*-'' (line_from s p) \<or> sublist ''/*='' (line_from s p))"
    by blast
  show ?thesis
    unfolding u rmatch.simps(11) e by simp
qed

lemma rmatch_right_boundary:
  assumes "q \<le> length s"
  shows "rmatch right_boundary s (q, d) =
     (if q = length s \<or> re_space (s ! q) \<or> cls_quote (s ! q) then [(q, d)] else [])"
  using assms by (auto simp add: right_boundary_def re_space_def in_range_def)

text \<open>The PARTIAL_URL pattern after its left boundary.\<close>

definition partial_tail :: re where
  "partial_tail = Cat no_double_slash (Cat no_double_star (Cat no_comment_opener
     (Cat (Group partial_token) (Cat right_boundary no_comma))))"

lemma partial_url_pattern_tail: "partial_url_pattern = Cat left_boundary partial_tail"
  by (simp only: partial_url_pattern_unfold partial_tail_def)

definition line_clear :: "string \<Rightarrow> nat \<Rightarrow> bool" where
  "line_clear s p = (\<not> sublist ''//'' (line_from s p) \<and> \<not> sublist ''**'' (line_from s p)
     \<and> \<not> sublist ''/*-'' (line_from s p) \<and> \<not> sublist ''/*='' (line_from s p))"

lemma rmatch_partial_tail:
  "rmatch partial_tail s (p, c) =
     (if line_clear s p
      then rmatch (Cat (Group partial_token) (Cat right_boundary no_comma)) s (p, c)
      else [])"
proof (cases "line_clear s p")
  case True
  then have "rmatch no_double_slash s (p, c) = [(p, c)]" "rmatch no_double_star s (p, c) = [(p, c)]"
    "rmatch no_comment_opener s (p, c) = [(p, c)]"
    by (simp_all add: line_clear_def rmatch_no_double_slash rmatch_no_double_star
        rmatch_no_comment_opener)
  then have "rmatch partial_tail s (p, c)
      = rmatch (Cat (Group partial_token) (Cat right_boundary no_comma)) s (p, c)"
    unfolding partial_tail_def by (simp only: rmatch_Cat_single)
  with True show ?thesis by simp
next
  case False
  then consider "rmatch no_double_slash s (p, c) = []"
    | "rmatch no_double_slash s (p, c) = [(p, c)]" "rmatch no_double_star s (p, c) = []"
    | "rmatch no_double_slash s (p, c) = [(p, c)]" "rmatch no_double_star s (p, c) = [(p, c)]"
      "rmatch no_comment_opener s (p, c) = []"
    unfolding line_clear_def rmatch_no_double_slash rmatch_no_double_star rmatch_no_comment_opener
    by (cases "sublist ''//'' (line_from s p)"; cases "sublist ''**'' (line_from s p)"; simp)
  then have "rmatch partial_tail s (p, c) = []"
  proof cases
    case 1
    then show ?thesis
      unfolding partial_tail_def by (rule rmatch_Cat_none)
  next
    case 2
    from 2(2) have "rmatch (Cat no_double_star (Cat no_comment_opener
        (Cat (Group partial_token) (Cat right_boundary no_comma)))) s (p, c) = []"
      by (rule rmatch_Cat_none)
    with 2(1) show ?thesis
      unfolding partial_tail_def by (simp only: rmatch_Cat_single)
  next
    case 3
    from 3(3) have "rmatch (Cat no_comment_opener
        (Cat (Group partial_token) (Cat right_boundary no_comma))) s (p, c) = []"
      by (rule rmatch_Cat_none)
    with 3(1,2) show ?thesis
      unfolding partial_tail_def by (simp only: rmatch_Cat_single)
  qed
  with False show ?thesis by simp
qed

lemma sublist_single: "sublist [x] ys \<longleftrightarrow> x \<in> set ys"
  by (auto simp add: sublist_def in_set_conv_decomp)

lemma partial_tail_sound:
  assumes "(e, cap) \<in> set (rmatch partial_tail s (p, c))"
  shows "cap = Some (p, e) \<and> p < e \<and> e \<le> length s \<and> cls_path (s ! p)
     \<and> line_clear s p \<and> CHR '','' \<notin> set (line_from s e)"
proof -
  from assms have clear: "line_clear s p"
    and m: "(e, cap) \<in> set (rmatch (Cat (Group partial_token) (Cat right_boundary no_comma)) s (p, c))"
    unfolding rmatch_partial_tail by (simp_all split: if_splits del: rmatch.simps)
  from m obtain q d where g: "(q, d) \<in> set (rmatch (Group partial_token) s (p, c))"
    and r5: "(e, cap) \<in> set (rmatch (Cat right_boundary no_comma) s (q, d))"
    unfolding in_rmatch_Cat [of _ "Group partial_token"] by blast
  from r5 obtain x6 where a6: "x6 \<in> set (rmatch right_boundary s (q, d))"
    and r6: "(e, cap) \<in> set (rmatch no_comma s x6)"
    unfolding in_rmatch_Cat [of _ right_boundary] by blast
  from lookahead_state(4) [OF a6] have x6: "x6 = (q, d)" .
  from lookahead_state(5) [OF r6 [unfolded x6]] have fin: "e = q" "cap = d" by simp_all
  from r6 have "\<not> sublist '','' (line_from s q)"
    unfolding x6 rmatch_no_comma by (simp split: if_splits)
  then have comma: "CHR '','' \<notin> set (line_from s e)"
    by (simp add: sublist_single fin)
  from g obtain d' where d: "d = Some (p, q)" and tok: "(q, d') \<in> set (rmatch partial_token s (p, c))"
    unfolding in_rmatch_Group by blast
  from partial_token_mem [OF tok] have t1: "p < q" and t2: "q \<le> length s"
    and t3: "\<forall>m. p \<le> m \<and> m < q \<longrightarrow> cls_path (s ! m)"
    by blast+
  from t1 t3 have "cls_path (s ! p)" by simp
  with fin d t1 t2 clear comma show ?thesis by simp
qed

lemma partial_tail_first:
  assumes "p < q" "q \<le> length s"
    and "startswith (slice s p q) ''./'' \<or> startswith (slice s p q) ''../''"
    and "\<forall>m. p \<le> m \<and> m < q \<longrightarrow> cls_path (s ! m)"
    and right: "q = length s \<or> re_space (s ! q) \<or> cls_quote (s ! q)"
    and clear: "line_clear s p"
    and comma: "CHR '','' \<notin> set (line_from s q)"
  shows "\<exists>rest. rmatch partial_tail s (p, c) = (q, Some (p, q)) # rest"
proof -
  from partial_token_first [OF assms(1-5)] obtain rest where
    "rmatch partial_token s (p, c) = (q, c) # rest"
    by blast
  then have g: "rmatch (Group partial_token) s (p, c)
      = (q, Some (p, q)) # map (\<lambda>(j, _). (j, Some (p, j))) rest"
    by simp
  from right assms(2) have rb: "rmatch right_boundary s (q, Some (p, q)) = [(q, Some (p, q))]"
    by (simp add: rmatch_right_boundary)
  from comma have nc: "rmatch no_comma s (q, Some (p, q)) = [(q, Some (p, q))]"
    by (simp add: rmatch_no_comma sublist_single)
  from rb nc have "rmatch (Cat right_boundary no_comma) s (q, Some (p, q)) = [(q, Some (p, q))]"
    by (simp only: rmatch_Cat_single)
  with g have "\<exists>rest. rmatch (Cat (Group partial_token) (Cat right_boundary no_comma)) s (p, c)
      = (q, Some (p, q)) # rest"
    by (intro rmatch_Cat_first)
  with clear show ?thesis
    by (simp only: rmatch_partial_tail if_True)
qed

text \<open>The first match of the PARTIAL_URL pattern at the left boundary of a token.\<close>

lemma rmatch_left_boundary:
  "rmatch left_boundary s (b, c) =
     (if b = 0 then [(0, c)] else [])
     @ (if b < length s \<and> re_space (s ! b) then [(Suc b, c)] else [])
     @ (if b < length s \<and> cls_quote (s ! b) then [(Suc b, c)] else [])"
  by (simp add: left_boundary_def)

lemma partial_url_pattern_first:
  assumes "p < q" "q \<le> length s"
    and "startswith (slice s p q) ''./'' \<or> startswith (slice s p q) ''../''"
    and "\<forall>m. p \<le> m \<and> m < q \<longrightarrow> cls_path (s ! m)"
    and right: "q = length s \<or> re_space (s ! q) \<or> cls_quote (s ! q)"
    and clear: "line_clear s p"
    and comma: "CHR '','' \<notin> set (line_from s q)"
    and left: "(p = 0 \<and> b = 0) \<or> (p = Suc b \<and> (re_space (s ! b) \<or> cls_quote (s ! b)))"
  shows "\<exists>rest. rmatch partial_url_pattern s (b, None) = (q, Some (p, q)) # rest"
proof -
  from partial_tail_first [OF assms(1-7)] obtain rest where
    tl: "rmatch partial_tail s (p, None) = (q, Some (p, q)) # rest"
    by blast
  have cat: "rmatch partial_url_pattern s (b, None)
      = concat (map (rmatch partial_tail s) (rmatch left_boundary s (b, None)))"
    unfolding partial_url_pattern_tail by (rule rmatch.simps(5))
  from left show ?thesis
  proof
    assume "p = 0 \<and> b = 0"
    then have "\<exists>l. rmatch left_boundary s (b, None) = (p, None) # l"
      by (simp add: rmatch_left_boundary)
    then obtain l where "rmatch left_boundary s (b, None) = (p, None) # l"
      by blast
    with tl show ?thesis
      unfolding cat by simp
  next
    assume a: "p = Suc b \<and> (re_space (s ! b) \<or> cls_quote (s ! b))"
    with assms(1,2) have bs: "b < length s" by simp
    have none: "rmatch partial_tail s (0, None) = []" if "b = 0"
    proof (rule ccontr)
      assume "rmatch partial_tail s (0, None) \<noteq> []"
      then obtain x xs where eq: "rmatch partial_tail s (0, None) = x # xs"
        by (meson neq_Nil_conv)
      obtain e cap where x: "x = (e, cap)" by (cases x) auto
      have "(e, cap) \<in> set (rmatch partial_tail s (0, None))"
        unfolding eq x [symmetric] by (rule list.set_intros(1))
      from partial_tail_sound [OF this] have "cls_path (s ! 0)" by simp
      with cls_path_not_boundary a that show False by blast
    qed
    from a bs have "\<exists>l. rmatch left_boundary s (b, None)
        = (if b = 0 then [(0, None)] else []) @ (p, None) # l"
      by (auto simp add: rmatch_left_boundary)
    then obtain l where "rmatch left_boundary s (b, None)
        = (if b = 0 then [(0, None)] else []) @ (p, None) # l"
      by blast
    with tl none show ?thesis
      unfolding cat by (cases "b = 0") simp_all
  qed
qed

lemma match_at_first:
  assumes "rmatch r s (b, None) = (q, c) # rest" "b < q"
  shows "match_at r s b ma = Some (q, c)"
  using assms by (simp add: match_at_def)

text \<open>The search finds the first position at or after its start where the pattern matches.\<close>

lemma search_finds:
  assumes "start \<le> b" "b \<le> length s" "match_at r s b (ma \<and> b = start) \<noteq> None"
  shows "\<exists>b' m'. search r s start ma = Some (b', m') \<and> start \<le> b' \<and> b' \<le> b
     \<and> match_at r s b' (ma \<and> b' = start) = Some m'"
  using assms
proof (induction "b - start" arbitrary: start ma)
  case 0
  then have eq: "b = start" by simp
  with "0.prems"(3) obtain m where "match_at r s start ma = Some m"
    by auto
  then show ?case
    using eq by (subst search.simps) simp
next
  case (Suc n)
  show ?case
  proof (cases "match_at r s start ma")
    case (Some m)
    then show ?thesis
      using Suc.prems(1) by (subst search.simps) simp
  next
    case None
    from Suc.hyps(2) have lt: "start < b" by simp
    with Suc.prems(3) have hit: "match_at r s b (False \<and> b = start + 1) \<noteq> None"
      by simp
    from Suc.hyps(2) have n: "n = b - (start + 1)" by simp
    from lt have le: "start + 1 \<le> b" by simp
    from Suc.hyps(1) [OF n le Suc.prems(2) hit] obtain b' m' where
      r: "search r s (start + 1) False = Some (b', m')" "start + 1 \<le> b'" "b' \<le> b"
        "match_at r s b' (False \<and> b' = start + 1) = Some m'"
      by blast
    from lt Suc.prems(2) have "start < length s" by simp
    with None r(1) have "search r s start ma = Some (b', m')"
      by (subst search.simps) simp
    moreover from r(2) have "b' \<noteq> start" by simp
    ultimately show ?thesis
      using r by auto
  qed
qed

text \<open>
  A match at \<open>b\<close> is found by the scan when no match that starts before \<open>b\<close> reaches
  beyond \<open>b\<close>.
\<close>

lemma scan_reaches:
  assumes "\<And>ma. match_at r s b ma = Some m"
    and "\<And>b' ma e' c'. b' < b \<Longrightarrow> match_at r s b' ma = Some (e', c') \<Longrightarrow> e' \<le> b"
    and "b \<le> length s" "start \<le> b"
  shows "(b, m) \<in> set (scan r s start ma0)"
  using assms
proof (induction r s start ma0 rule: scan.induct)
  case (1 r s start ma0)
  from "1.prems"(1) have "match_at r s b (ma0 \<and> b = start) \<noteq> None"
    by simp
  from search_finds [OF "1.prems"(4) "1.prems"(3) this] obtain b' m' where
    sr: "search r s start ma0 = Some (b', m')" and bb: "start \<le> b'" "b' \<le> b"
    and mm: "match_at r s b' (ma0 \<and> b' = start) = Some m'"
    by blast
  obtain e' c' where m': "m' = (e', c')" by (cases m') auto
  from "1.prems"(3,4) have sl: "start \<le> length s" by simp
  have unfold: "scan r s start ma0 = (b', e', c') # scan r s e' (e' = b')"
    using sr sl unfolding m' by (rule scan_Some)
  show ?case
  proof (cases "b' = b")
    case True
    with mm "1.prems"(1) have "m' = m" by simp
    with True show ?thesis
      unfolding unfold m' by simp
  next
    case False
    with bb have lt: "b' < b" by simp
    from "1.prems"(2) [OF lt mm [unfolded m']] have eb: "e' \<le> b" .
    have "(b, m) \<in> set (scan r s e' (e' = b'))"
      using sl sr [unfolded m'] "1.prems"(1,2,3) eb
      by (intro "1.IH" [of "(b', e', c')" b' "(e', c')" e' c']) simp_all
    then show ?thesis
      unfolding unfold by simp
  qed
qed

lemma partial_match_ends_before_boundary:
  assumes m: "match_at partial_url_pattern s b' ma = Some (e', c')"
    and lt: "b' < b" and bnd: "re_space (s ! b) \<or> cls_quote (s ! b)"
  shows "e' \<le> b"
proof (rule ccontr)
  assume n: "\<not> e' \<le> b"
  from match_at_mem [OF m] show False
  proof (rule partial_url_pattern_sound)
    fix p
    assume "(p = b' \<and> b' = 0) \<or> (p = Suc b' \<and> b' < length s \<and> (re_space (s ! b') \<or> cls_quote (s ! b')))"
      and all: "\<forall>m. p \<le> m \<and> m < e' \<longrightarrow> cls_path (s ! m)"
    with lt have "p \<le> b" by auto
    with n all have "cls_path (s ! b)" by simp
    with cls_path_not_boundary bnd show False by blast
  qed
qed

lemma partial_token_found:
  assumes "p < q" "q \<le> length s"
    and "startswith (slice s p q) ''./'' \<or> startswith (slice s p q) ''../''"
    and "\<forall>m. p \<le> m \<and> m < q \<longrightarrow> cls_path (s ! m)"
    and left: "p = 0 \<or> re_space (s ! (p - 1)) \<or> cls_quote (s ! (p - 1))"
    and right: "q = length s \<or> re_space (s ! q) \<or> cls_quote (s ! q)"
    and clear: "line_clear s p"
    and comma: "CHR '','' \<notin> set (line_from s q)"
  shows "(p - 1, q, Some (p, q)) \<in> set (scan partial_url_pattern s 0 False)"
proof -
  let ?b = "p - 1"
  from left have left': "(p = 0 \<and> ?b = 0) \<or> (p = Suc ?b \<and> (re_space (s ! ?b) \<or> cls_quote (s ! ?b)))"
    by (cases p) auto
  from partial_url_pattern_first [OF assms(1-4) right clear comma left'] obtain rest where
    "rmatch partial_url_pattern s (?b, None) = (q, Some (p, q)) # rest"
    by blast
  moreover from assms(1) have "?b < q" by simp
  ultimately have hit: "match_at partial_url_pattern s ?b ma = Some (q, Some (p, q))" for ma
    by (rule match_at_first)
  have before: "e' \<le> ?b" if "b' < ?b" "match_at partial_url_pattern s b' ma = Some (e', c')"
    for b' ma e' c'
  proof -
    from that(1) left' have "re_space (s ! ?b) \<or> cls_quote (s ! ?b)"
      by auto
    from partial_match_ends_before_boundary [OF that(2) that(1) this] show ?thesis .
  qed
  from assms(1,2) have "?b \<le> length s" by simp
  from scan_reaches [of partial_url_pattern s ?b "(q, Some (p, q))" 0 False, OF hit before this]
  show ?thesis by simp
qed


section \<open>The claim about the PARTIAL_URL matcher\<close>

lemma list_all_slice:
  assumes "list_all P (slice s p q)" "q \<le> length s"
  shows "\<forall>m. p \<le> m \<and> m < q \<longrightarrow> P (s ! m)"
proof (intro allI impI)
  fix m
  assume m: "p \<le> m \<and> m < q"
  with assms(2) have "m - p < length (slice s p q)"
    by (auto simp add: slice_def)
  with assms(1) have "P (slice s p q ! (m - p))"
    by (simp add: list_all_length)
  moreover from m assms(2) have "slice s p q ! (m - p) = s ! m"
    using slice_nth [of q s p "m - p"] by simp
  ultimately show "P (s ! m)" by simp
qed

lemma partial_scan_accepts:
  assumes "(b, e, Some (p, q)) \<in> set (scan partial_url_pattern s 0 False)"
  shows "line_clear s p \<and> CHR '','' \<notin> set (line_from s q)"
proof -
  from scan_mem [OF assms] obtain k c1 where
    "(e, Some (p, q)) \<in> set (rmatch partial_tail s (k, c1))"
    unfolding partial_url_pattern_tail in_rmatch_Cat by blast
  from partial_tail_sound [OF this] show ?thesis by simp
qed

text \<open>
  Claim C5, as amended. A token that starts with \<open>./\<close> or \<open>../\<close>, consists of word and path
  characters, has the start of the text, a whitespace or a quote on its left and a
  whitespace, the end of the text or a quote on its right, is a raw match of the PARTIAL_URL
  pattern whenever the rest of its line, from the start of the token, contains none of
  \<open>//\<close>, \<open>**\<close>, \<open>/*-\<close> and \<open>/*=\<close>, and the rest of the line after the token contains no comma.
  Conversely no raw match is followed on its line by one of these. The text
  \<open>import "./utils/helper"\<close> yields the raw match \<open>./utils/helper\<close>, normalized to
  \<open>/utils/helper\<close>.
\<close>

theorem C5_partial_url_matcher:
  "(p < q \<and> q \<le> length s
      \<and> (startswith (slice s p q) ''./'' \<or> startswith (slice s p q) ''../'')
      \<and> list_all cls_path (slice s p q)
      \<and> (p = 0 \<or> re_space (s ! (p - 1)) \<or> cls_quote (s ! (p - 1)))
      \<and> (q = length s \<or> re_space (s ! q) \<or> cls_quote (s ! q))
      \<and> \<not> sublist ''//'' (line_from s p) \<and> \<not> sublist ''**'' (line_from s p)
      \<and> \<not> sublist ''/*-'' (line_from s p) \<and> \<not> sublist ''/*='' (line_from s p)
      \<and> CHR '','' \<notin> set (line_from s q)
    \<longrightarrow> slice s p q \<in> set (findall partial_url_pattern s))
   \<and> ((b, e, Some (p', q')) \<in> set (scan partial_url_pattern s 0 False)
    \<longrightarrow> \<not> sublist ''//'' (line_from s p') \<and> \<not> sublist ''**'' (line_from s p')
      \<and> \<not> sublist ''/*-'' (line_from s p') \<and> \<not> sublist ''/*='' (line_from s p')
      \<and> CHR '','' \<notin> set (line_from s q'))
   \<and> findall partial_url_pattern (''import '' @ [CHR 0x22] @ ''./utils/helper'' @ [CHR 0x22])
       = [''./utils/helper'']
   \<and> clean_url ''./utils/helper'' = ''/utils/helper''
   \<and> (''/utils/helper'', PARTIAL_URL, ''d'', ''d/f.js'', 1)
       \<in> set (extract_urls (''import '' @ [CHR 0x22] @ ''./utils/helper'' @ [CHR 0x22]) ''d'' ''d/f.js'')"
proof -
  have general: "slice s p q \<in> set (findall partial_url_pattern s)"
    if h: "p < q" "q \<le> length s"
      "startswith (slice s p q) ''./'' \<or> startswith (slice s p q) ''../''"
      "list_all cls_path (slice s p q)"
      "p = 0 \<or> re_space (s ! (p - 1)) \<or> cls_quote (s ! (p - 1))"
      "q = length s \<or> re_space (s ! q) \<or> cls_quote (s ! q)"
      "line_clear s p" "CHR '','' \<notin> set (line_from s q)"
  proof -
    from list_all_slice [OF h(4) h(2)] have chars: "\<forall>m. p \<le> m \<and> m < q \<longrightarrow> cls_path (s ! m)" .
    from partial_token_found [OF h(1-3) chars h(5-8)]
    have "(p - 1, q, Some (p, q)) \<in> set (scan partial_url_pattern s 0 False)" .
    then have "slice s p q \<in> (\<lambda>(b, e, c). case c of None \<Rightarrow> [] | Some (x, y) \<Rightarrow> slice s x y)
        ` set (scan partial_url_pattern s 0 False)"
      by (intro image_eqI [where x = "(p - 1, q, Some (p, q))"]) simp_all
    then show ?thesis
      unfolding findall_def by (simp add: groups_partial_url_pattern)
  qed
  have example: "findall partial_url_pattern (''import '' @ [CHR 0x22] @ ''./utils/helper'' @ [CHR 0x22])
       = [''./utils/helper'']"
    by code_simp
  have normal: "clean_url ''./utils/helper'' = ''/utils/helper''"
    by (subst clean_url_relative) simp_all
  have extracted: "(''/utils/helper'', PARTIAL_URL, ''d'', ''d/f.js'', 1)
       \<in> set (extract_urls (''import '' @ [CHR 0x22] @ ''./utils/helper'' @ [CHR 0x22]) ''d'' ''d/f.js'')"
    by code_simp
  from general partial_scan_accepts [of b e p' q' s] example normal extracted
  show ?thesis
    unfolding line_clear_def by blast
qed

theorem C5_witness:
  "slice (''import '' @ [CHR 0x22] @ ''./utils/helper'' @ [CHR 0x22]) 8 22 = ''./utils/helper''
   \<and> ''./utils/helper''
       \<in> set (findall partial_url_pattern (''import '' @ [CHR 0x22] @ ''./utils/helper'' @ [CHR 0x22]))
   \<and> scan partial_url_pattern (''x ./a'') 0 False = [(1, 5, Some (2, 5))]
   \<and> \<not> sublist ''//'' (line_from ''x ./a'' 2) \<and> CHR '','' \<notin> set (line_from ''x ./a'' 5)"
proof -
  let ?s = "''import '' @ [CHR 0x22] @ ''./utils/helper'' @ [CHR 0x22]"
  have h: "8 < (22::nat) \<and> 22 \<le> length ?s
      \<and> (startswith (slice ?s 8 22) ''./'' \<or> startswith (slice ?s 8 22) ''../'')
      \<and> list_all cls_path (slice ?s 8 22)
      \<and> ((8::nat) = 0 \<or> re_space (?s ! (8 - 1)) \<or> cls_quote (?s ! (8 - 1)))
      \<and> (22 = length ?s \<or> re_space (?s ! 22) \<or> cls_quote (?s ! 22))
      \<and> \<not> sublist ''//'' (line_from ?s 8) \<and> \<not> sublist ''**'' (line_from ?s 8)
      \<and> \<not> sublist ''/*-'' (line_from ?s 8) \<and> \<not> sublist ''/*='' (line_from ?s 8)
      \<and> CHR '','' \<notin> set (line_from ?s 22)"
    by code_simp
  have sl: "slice ?s 8 22 = ''./utils/helper''"
    by code_simp
  have sc: "scan partial_url_pattern (''x ./a'') 0 False = [(1, 5, Some (2, 5))]"
    by code_simp
  from C5_partial_url_matcher [of 8 22 ?s] h sl
  have "''./utils/helper'' \<in> set (findall partial_url_pattern ?s)"
    by simp
  moreover from C5_partial_url_matcher [of _ _ "''x ./a''" 1 5 2 5] sc
  have "\<not> sublist ''//'' (line_from ''x ./a'' 2) \<and> CHR '','' \<notin> set (line_from ''x ./a'' 5)"
    by simp
  ultimately show ?thesis
    using sl sc by simp
qed

text \<open>
  Claim C5 as stated fails. In \<open>./a see http://b\<close> the token \<open>./a\<close> stands at the start of the
  text and before a blank, next to none of \<open>//\<close>, \<open>**\<close>, \<open>/*-\<close>, \<open>/*=\<close>, and the text has no comma;
  the pattern rejects it all the same, for the \<open>//\<close> of the URL later on the line. Without
  that URL the token is matched.
\<close>

theorem C5_counterexample:
  "slice ''./a see http://b'' 0 3 = ''./a''
   \<and> re_space (''./a see http://b'' ! 3)
   \<and> findall partial_url_pattern ''./a see http://b'' = []
   \<and> findall partial_url_pattern ''./a see b'' = [''./a'']"
  by code_simp

end
